theory Spec2Isabelle
  imports Main "HOL-Library.Multiset"
begin

section \<open>The propagation engine of ureact (include/ureact/ureact.hpp)\<close>

text \<open>
  A shallow embedding of the engine in \<^verbatim>\<open>namespace ureact::detail\<close>: the reactive
  nodes, the topological queue, the graph with its transactions and its propagation
  loop, and the observer handle. A node is addressed by a \<open>node_id\<close>, which stands for
  the C++ pointer to it; the graph owns a store from identifiers to nodes, so that the
  aliasing of the source (a node that is in several successor lists, a node attached
  to itself) is the aliasing of the model. Identifiers are handed out in order and
  never reused; a node that the source destroys (the observer that
  \<^verbatim>\<open>unregister_observer\<close> erases) stays in the store, where nothing refers to it.

  The levels and the transaction counter are C++ \<^verbatim>\<open>int\<close>s. They are integers here, and
  each increment that would overflow is an error branch, as signed overflow is
  undefined.
\<close>

subsection \<open>Errors\<close>

text \<open>
  The source has no exceptions of its own. It stops in three ways, each a value here:
  a failed \<^verbatim>\<open>assert\<close> (the assertions are taken as compiled in), behaviour the C++
  standard leaves undefined (erasing at \<^verbatim>\<open>end()\<close>, dereferencing a null pointer,
  signed overflow), and a loop that has not finished when the fuel given to it is
  used up. \<open>Ill_typed\<close> marks a call that the static types of the source exclude, such
  as \<^verbatim>\<open>apply_input\<close> on a node that is no input node.
\<close>

datatype error = Assertion_failed | Undefined_behaviour | Ill_typed | Out_of_fuel

fun bind_result :: "error + 'a \<Rightarrow> ('a \<Rightarrow> error + 'b) \<Rightarrow> error + 'b" where
  "bind_result (Inl e) f = Inl e"
| "bind_result (Inr x) f = f x"

text \<open>A range-based \<^verbatim>\<open>for\<close> whose body can stop the program.\<close>

fun for_each :: "('x \<Rightarrow> 's \<Rightarrow> error + 's) \<Rightarrow> 'x list \<Rightarrow> 's \<Rightarrow> error + 's" where
  "for_each body [] s = Inr s"
| "for_each body (x # xs) s = bind_result (body x s) (for_each body xs)"

subsection \<open>General purpose utilities: find_if_not, iter_swap, partition\<close>

text \<open>
  The library's own \<^verbatim>\<open>partition\<close> (used unless \<^verbatim>\<open>UREACT_USE_STD_ALGORITHM\<close> is
  defined). Iterators into a vector are indices into the list; \<^verbatim>\<open>last\<close> is the
  length.
\<close>

fun find_if_not :: "('a \<Rightarrow> bool) \<Rightarrow> 'a list \<Rightarrow> nat" where
  "find_if_not q [] = 0"
| "find_if_not q (x # xs) = (if \<not> q x then 0 else Suc (find_if_not q xs))"

definition iter_swap :: "'a list \<Rightarrow> nat \<Rightarrow> nat \<Rightarrow> 'a list" where
  "iter_swap xs a b = xs[a := xs ! b, b := xs ! a]"

function partition_loop :: "('a \<Rightarrow> bool) \<Rightarrow> 'a list \<Rightarrow> nat \<Rightarrow> nat \<Rightarrow> 'a list \<times> nat" where
  "partition_loop p xs first i =
     (if i < length xs then
        (if p (xs ! i) then partition_loop p (iter_swap xs i first) (Suc first) (Suc i)
         else partition_loop p xs first (Suc i))
      else (xs, first))"
  by pat_completeness auto
termination
  by (relation "measure (\<lambda>(p, xs, first, i). length xs - i)") (auto simp: iter_swap_def)

declare partition_loop.simps [simp del]

definition partition_vec :: "('a \<Rightarrow> bool) \<Rightarrow> 'a list \<Rightarrow> 'a list \<times> nat" where
  "partition_vec p xs =
     (let first = find_if_not p xs in
      if first = length xs then (xs, first)
      else partition_loop p xs first (Suc first))"

subsection \<open>The topological queue\<close>

type_synonym node_id = nat

text \<open>\<^verbatim>\<open>std::numeric_limits<int>::max()\<close> for the 32-bit \<^verbatim>\<open>int\<close> of the source.\<close>

definition INT_MAX :: int where
  "INT_MAX = 2147483647"

record topological_queue =
  m_next_data :: "node_id list"
  m_queue_data :: "(node_id \<times> int) list"

definition push :: "node_id \<Rightarrow> int \<Rightarrow> topological_queue \<Rightarrow> topological_queue" where
  "push v lvl q = q\<lparr>m_queue_data := m_queue_data q @ [(v, lvl)]\<rparr>"

definition next_values :: "topological_queue \<Rightarrow> node_id list" where
  "next_values q = m_next_data q"

definition minimal_level_of :: "(node_id \<times> int) list \<Rightarrow> int" where
  "minimal_level_of es =
     fold (\<lambda>e minimal_level. if minimal_level > snd e then snd e else minimal_level) es INT_MAX"

definition fetch_next :: "topological_queue \<Rightarrow> bool \<times> topological_queue" where
  "fetch_next q =
     (let minimal_level = minimal_level_of (m_queue_data q);
          (es, p) = partition_vec (\<lambda>e. snd e \<noteq> minimal_level) (m_queue_data q);
          nxt = map fst (drop p es)
      in (nxt \<noteq> [], \<lparr>m_next_data = nxt, m_queue_data = take p es\<rparr>))"


subsection \<open>Values, operations and nodes\<close>

text \<open>
  The source is a template over the value type \<^verbatim>\<open>S\<close> of each signal. The model has
  one value type for the whole graph: a plain value of the parameter type, or a
  \<^verbatim>\<open>signal<T>\<close>, which is a shared pointer to a node and may be null. The three overloads
  of \<^verbatim>\<open>equals\<close> (\<^verbatim>\<open>==\<close> on values, \<^verbatim>\<open>==\<close> on the referents of reference wrappers, identity of the
  node on signals) are equality of this type; a user-defined \<^verbatim>\<open>operator==\<close> that is no
  equivalence, or the floating point \<^verbatim>\<open>NaN\<close>, is outside the model.
\<close>

datatype 'a val = Val 'a | Sig "node_id option"

definition equals :: "'a val \<Rightarrow> 'a val \<Rightarrow> bool" where
  "equals lhs rhs = (lhs = rhs)"

datatype observer_action = Next | Stop_and_detach

text \<open>
  \<^verbatim>\<open>function_op\<close>: a function and its tuple of dependencies, each a pointer to a signal
  node or a nested operation. \<^verbatim>\<open>evaluate\<close> reads the value of every leaf and applies the
  functions (\<open>eval_dep\<close> is \<^verbatim>\<open>eval_functor::eval\<close>); \<open>leaves\<close> lists the node pointers in the order of the tuple, which is the
  set of nodes that \<^verbatim>\<open>attach\<close> and \<^verbatim>\<open>detach\<close> visit (the order in which the arguments of
  \<^verbatim>\<open>pass\<close> are evaluated is not fixed by C++; the attachments to different parents
  commute).
\<close>

datatype 'a function_op = Function_op "'a val list \<Rightarrow> 'a val" "'a dep list"
  and 'a dep = Dep_node node_id | Dep_op "'a function_op"

primrec evaluate :: "(node_id \<Rightarrow> 'a val) \<Rightarrow> 'a function_op \<Rightarrow> 'a val"
  and eval_dep :: "(node_id \<Rightarrow> 'a val) \<Rightarrow> 'a dep \<Rightarrow> 'a val" where
  "evaluate value_ref (Function_op func deps) = func (map (eval_dep value_ref) deps)"
| "eval_dep value_ref (Dep_node dep_ptr) = value_ref dep_ptr"
| "eval_dep value_ref (Dep_op op) = evaluate value_ref op"

primrec leaves :: "'a function_op \<Rightarrow> node_id list"
  and dep_leaves :: "'a dep \<Rightarrow> node_id list" where
  "leaves (Function_op func deps) = concat (map dep_leaves deps)"
| "dep_leaves (Dep_node dep_ptr) = [dep_ptr]"
| "dep_leaves (Dep_op op) = leaves op"

text \<open>The members that \<^verbatim>\<open>var_node\<close> adds to a signal node.\<close>

record 'a var_members =
  m_new_value :: "'a val"
  m_is_input_added :: bool
  m_is_input_modified :: bool

text \<open>
  The concrete node classes, with the members each adds: \<^verbatim>\<open>signal_op_node\<close> has \<^verbatim>\<open>m_op\<close>,
  \<^verbatim>\<open>flatten_node\<close> has \<^verbatim>\<open>m_outer\<close> and \<^verbatim>\<open>m_inner\<close>, \<^verbatim>\<open>signal_observer_node\<close> has the
  weak pointer \<^verbatim>\<open>m_subject\<close> (\<open>None\<close> once reset) and \<^verbatim>\<open>m_func\<close>. Operation stealing
  (\<^verbatim>\<open>steal_op\<close>, a rewrite done while an expression is built) is not modelled: every
  \<^verbatim>\<open>signal_op_node\<close> here holds its operation.
\<close>

datatype 'a node_kind =
    Var_node "'a var_members"
  | Signal_op_node "'a function_op"
  | Flatten_node node_id node_id
  | Signal_observer_node "node_id option" "'a val \<Rightarrow> observer_action"

text \<open>
  \<^verbatim>\<open>reactive_node\<close> (\<open>level\<close>, \<open>new_level\<close>, \<open>queued\<close>, \<open>successors\<close>), \<^verbatim>\<open>observable\<close>
  (\<open>m_observers\<close>) and \<^verbatim>\<open>signal_node\<close> (\<open>m_value\<close>) in one record. An observer node is
  neither observable nor a signal node: its \<open>m_observers\<close> and \<open>m_value\<close> are never
  read.
\<close>

record 'a node =
  level :: int
  new_level :: int
  queued :: bool
  successors :: "node_id list"
  m_observers :: "node_id list"
  m_value :: "'a val"
  kind :: "'a node_kind"

text \<open>
  \<^verbatim>\<open>react_graph\<close>, with the store of the nodes and the next free identifier. \<open>tick_log\<close>
  is not a member of the source: it records the calls of \<^verbatim>\<open>tick\<close> in order, so that
  "no node was ticked" can be stated. No function of the model reads it.
\<close>

record 'a react_graph =
  nodes :: "node_id \<Rightarrow> 'a node"
  next_node :: node_id
  m_scheduled_nodes :: topological_queue
  m_transaction_level :: int
  m_changed_inputs :: "node_id list"
  m_detached_observers :: "node_id list"
  tick_log :: "node_id list"

definition upd_node :: "node_id \<Rightarrow> ('a node \<Rightarrow> 'a node) \<Rightarrow> 'a react_graph \<Rightarrow> 'a react_graph" where
  "upd_node n f g = g\<lparr>nodes := (nodes g)(n := f (nodes g n))\<rparr>"

definition value_ref :: "'a react_graph \<Rightarrow> node_id \<Rightarrow> 'a val" where
  "value_ref g n = m_value (nodes g n)"

subsection \<open>Topology: attach, detach, scheduling of successors\<close>

definition on_node_attach :: "node_id \<Rightarrow> node_id \<Rightarrow> 'a react_graph \<Rightarrow> error + 'a react_graph" where
  "on_node_attach node parent g =
     (let g1 = upd_node parent (\<lambda>p. p\<lparr>successors := successors p @ [node]\<rparr>) g in
      if level (nodes g1 node) \<le> level (nodes g1 parent) then
        (if level (nodes g1 parent) = INT_MAX then Inl Undefined_behaviour
         else Inr (upd_node node (\<lambda>n. n\<lparr>level := level (nodes g1 parent) + 1\<rparr>) g1))
      else Inr g1)"

text \<open>
  \<^verbatim>\<open>find\<close> returns the first position of the node, or \<^verbatim>\<open>end()\<close>; erasing at \<^verbatim>\<open>end()\<close>
  is undefined.
\<close>

definition on_node_detach :: "node_id \<Rightarrow> node_id \<Rightarrow> 'a react_graph \<Rightarrow> error + 'a react_graph" where
  "on_node_detach node parent g =
     (if node \<in> set (successors (nodes g parent))
      then Inr (upd_node parent (\<lambda>p. p\<lparr>successors := remove1 node (successors p)\<rparr>) g)
      else Inl Undefined_behaviour)"

definition process_children :: "node_id \<Rightarrow> 'a react_graph \<Rightarrow> 'a react_graph" where
  "process_children node g =
     fold (\<lambda>succ g.
             if \<not> queued (nodes g succ)
             then (upd_node succ (\<lambda>n. n\<lparr>queued := True\<rparr>) g)
                    \<lparr>m_scheduled_nodes := push succ (level (nodes g succ)) (m_scheduled_nodes g)\<rparr>
             else g)
          (successors (nodes g node)) g"

definition on_input_change :: "node_id \<Rightarrow> 'a react_graph \<Rightarrow> 'a react_graph" where
  "on_input_change node g = process_children node g"

definition on_node_pulse :: "node_id \<Rightarrow> 'a react_graph \<Rightarrow> 'a react_graph" where
  "on_node_pulse node g = process_children node g"

definition invalidate_successors :: "node_id \<Rightarrow> 'a react_graph \<Rightarrow> error + 'a react_graph" where
  "invalidate_successors node g =
     for_each (\<lambda>succ g.
                 if new_level (nodes g succ) \<le> level (nodes g node) then
                   (if level (nodes g node) = INT_MAX then Inl Undefined_behaviour
                    else Inr (upd_node succ (\<lambda>n. n\<lparr>new_level := level (nodes g node) + 1\<rparr>) g))
                 else Inr g)
              (successors (nodes g node)) g"

definition on_dynamic_node_attach :: "node_id \<Rightarrow> node_id \<Rightarrow> 'a react_graph \<Rightarrow> error + 'a react_graph" where
  "on_dynamic_node_attach node parent g =
     bind_result (on_node_attach node parent g) (\<lambda>g1.
     bind_result (invalidate_successors node g1) (\<lambda>g2.
       let g3 = upd_node node (\<lambda>n. n\<lparr>queued := True\<rparr>) g2
       in Inr (g3\<lparr>m_scheduled_nodes := push node (level (nodes g3 node)) (m_scheduled_nodes g3)\<rparr>)))"

definition on_dynamic_node_detach :: "node_id \<Rightarrow> node_id \<Rightarrow> 'a react_graph \<Rightarrow> error + 'a react_graph" where
  "on_dynamic_node_detach node parent g = on_node_detach node parent g"

definition queue_observer_for_detach :: "node_id \<Rightarrow> 'a react_graph \<Rightarrow> 'a react_graph" where
  "queue_observer_for_detach obs g = g\<lparr>m_detached_observers := m_detached_observers g @ [obs]\<rparr>"

subsection \<open>The var node\<close>

text \<open>
  \<^verbatim>\<open>var_node::add_input\<close>, \<^verbatim>\<open>modify_input\<close> and \<^verbatim>\<open>apply_input\<close>. In \<^verbatim>\<open>apply_input\<close> the staged
  value is moved into the live one; the moved-from \<^verbatim>\<open>m_new_value\<close> is kept as it was
  (the source does not read it again before \<^verbatim>\<open>add_input\<close> overwrites it).
\<close>

definition var_node_add_input :: "node_id \<Rightarrow> 'a val \<Rightarrow> 'a react_graph \<Rightarrow> error + 'a react_graph" where
  "var_node_add_input r new_value g =
     (case kind (nodes g r) of
        Var_node v \<Rightarrow>
          Inr (upd_node r (\<lambda>n. n\<lparr>kind := Var_node (v\<lparr>m_new_value := new_value,
                 m_is_input_added := True, m_is_input_modified := False\<rparr>)\<rparr>) g)
      | _ \<Rightarrow> Inl Ill_typed)"

definition var_node_modify_input :: "node_id \<Rightarrow> ('a val \<Rightarrow> 'a val) \<Rightarrow> 'a react_graph \<Rightarrow> error + 'a react_graph" where
  "var_node_modify_input r func g =
     (case kind (nodes g r) of
        Var_node v \<Rightarrow>
          if \<not> m_is_input_added v
          then Inr (upd_node r (\<lambda>n. n\<lparr>m_value := func (m_value n),
                      kind := Var_node (v\<lparr>m_is_input_modified := True\<rparr>)\<rparr>) g)
          else Inr (upd_node r (\<lambda>n. n\<lparr>kind := Var_node (v\<lparr>m_new_value := func (m_new_value v)\<rparr>)\<rparr>) g)
      | _ \<Rightarrow> Inl Ill_typed)"

definition var_node_apply_input :: "node_id \<Rightarrow> 'a react_graph \<Rightarrow> error + (bool \<times> 'a react_graph)" where
  "var_node_apply_input r g =
     (case kind (nodes g r) of
        Var_node v \<Rightarrow>
          if m_is_input_added v then
            (let g1 = upd_node r (\<lambda>n. n\<lparr>kind := Var_node (v\<lparr>m_is_input_added := False\<rparr>)\<rparr>) g in
             if \<not> equals (m_value (nodes g1 r)) (m_new_value v)
             then Inr (True, on_input_change r (upd_node r (\<lambda>n. n\<lparr>m_value := m_new_value v\<rparr>) g1))
             else Inr (False, g1))
          else if m_is_input_modified v then
            (let g1 = upd_node r (\<lambda>n. n\<lparr>kind := Var_node (v\<lparr>m_is_input_modified := False\<rparr>)\<rparr>) g
             in Inr (True, on_input_change r g1))
          else Inr (False, g)
      | _ \<Rightarrow> Inl Ill_typed)"

definition var_node_tick :: "node_id \<Rightarrow> 'a react_graph \<Rightarrow> error + 'a react_graph" where
  "var_node_tick self g = Inl Assertion_failed"

subsection \<open>The ticks of the other nodes\<close>

definition signal_op_node_tick :: "node_id \<Rightarrow> 'a function_op \<Rightarrow> 'a react_graph \<Rightarrow> error + 'a react_graph" where
  "signal_op_node_tick self m_op g =
     (let new_value = evaluate (value_ref g) m_op in
      if \<not> equals (m_value (nodes g self)) new_value
      then Inr (on_node_pulse self (upd_node self (\<lambda>n. n\<lparr>m_value := new_value\<rparr>) g))
      else Inr g)"

text \<open>
  \<^verbatim>\<open>flatten_node::tick\<close>. The value of the outer node is a signal; a null one is
  dereferenced by \<^verbatim>\<open>on_dynamic_node_attach( *this, *new_inner )\<close>.
\<close>

definition flatten_node_tick :: "node_id \<Rightarrow> node_id \<Rightarrow> node_id \<Rightarrow> 'a react_graph \<Rightarrow> error + 'a react_graph" where
  "flatten_node_tick self m_outer m_inner g =
     (case m_value (nodes g m_outer) of
        Val x \<Rightarrow> Inl Ill_typed
      | Sig None \<Rightarrow> Inl Undefined_behaviour
      | Sig (Some new_inner) \<Rightarrow>
          if new_inner \<noteq> m_inner then
            (let old_inner = m_inner;
                 g1 = upd_node self (\<lambda>n. n\<lparr>kind := Flatten_node m_outer new_inner\<rparr>) g
             in bind_result (on_dynamic_node_detach self old_inner g1)
                  (on_dynamic_node_attach self new_inner))
          else if \<not> equals (m_value (nodes g self)) (m_value (nodes g m_inner))
          then Inr (on_node_pulse self (upd_node self (\<lambda>n. n\<lparr>m_value := m_value (nodes g m_inner)\<rparr>) g))
          else Inr g)"

definition signal_observer_node_tick ::
  "node_id \<Rightarrow> node_id option \<Rightarrow> ('a val \<Rightarrow> observer_action) \<Rightarrow> 'a react_graph \<Rightarrow> error + 'a react_graph" where
  "signal_observer_node_tick self m_subject m_func g =
     (let should_detach =
            (case m_subject of
               Some p \<Rightarrow> m_func (m_value (nodes g p)) = Stop_and_detach
             | None \<Rightarrow> False)
      in if should_detach then Inr (queue_observer_for_detach self g) else Inr g)"

text \<open>The virtual call \<^verbatim>\<open>cur_node->tick()\<close>, recorded in the log.\<close>

definition tick :: "node_id \<Rightarrow> 'a react_graph \<Rightarrow> error + 'a react_graph" where
  "tick self g =
     (let g' = g\<lparr>tick_log := tick_log g @ [self]\<rparr> in
      case kind (nodes g self) of
        Var_node v \<Rightarrow> var_node_tick self g'
      | Signal_op_node m_op \<Rightarrow> signal_op_node_tick self m_op g'
      | Flatten_node m_outer m_inner \<Rightarrow> flatten_node_tick self m_outer m_inner g'
      | Signal_observer_node m_subject m_func \<Rightarrow> signal_observer_node_tick self m_subject m_func g')"

subsection \<open>Propagation\<close>

text \<open>
  The body of \<^verbatim>\<open>react_graph::propagate\<close>: the inner loop runs over \<^verbatim>\<open>next_values()\<close>, which
  no tick changes (a tick only pushes to \<^verbatim>\<open>m_queue_data\<close>). The outer \<^verbatim>\<open>while\<close> takes one
  unit of fuel for each call of \<^verbatim>\<open>fetch_next\<close>.
\<close>

fun propagate_wave :: "node_id list \<Rightarrow> 'a react_graph \<Rightarrow> error + 'a react_graph" where
  "propagate_wave [] g = Inr g"
| "propagate_wave (cur_node # rest) g =
     (if level (nodes g cur_node) < new_level (nodes g cur_node) then
        bind_result
          (invalidate_successors cur_node
             (upd_node cur_node (\<lambda>n. n\<lparr>level := new_level n\<rparr>) g))
          (\<lambda>g1. propagate_wave rest
                  (g1\<lparr>m_scheduled_nodes :=
                        push cur_node (level (nodes g1 cur_node)) (m_scheduled_nodes g1)\<rparr>))
      else
        bind_result (tick cur_node (upd_node cur_node (\<lambda>n. n\<lparr>queued := False\<rparr>) g))
          (propagate_wave rest))"

fun propagate :: "nat \<Rightarrow> 'a react_graph \<Rightarrow> error + 'a react_graph" where
  "propagate 0 g = Inl Out_of_fuel"
| "propagate (Suc fuel) g =
     (case fetch_next (m_scheduled_nodes g) of
        (has_next, q) \<Rightarrow>
          (let g1 = g\<lparr>m_scheduled_nodes := q\<rparr> in
           if has_next then bind_result (propagate_wave (next_values q) g1) (propagate fuel)
           else Inr g1))"

subsection \<open>Observers and observables\<close>

definition detach_observer :: "node_id \<Rightarrow> 'a react_graph \<Rightarrow> error + 'a react_graph" where
  "detach_observer self g =
     (case kind (nodes g self) of
        Signal_observer_node m_subject m_func \<Rightarrow>
          (case m_subject of
             Some p \<Rightarrow>
               bind_result (on_node_detach self p g) (\<lambda>g1.
                 Inr (upd_node self (\<lambda>n. n\<lparr>kind := Signal_observer_node None m_func\<rparr>) g1))
           | None \<Rightarrow> Inr g)
      | _ \<Rightarrow> Inl Ill_typed)"

definition register_observer :: "node_id \<Rightarrow> node_id \<Rightarrow> 'a react_graph \<Rightarrow> 'a react_graph" where
  "register_observer subject obs_ptr g =
     upd_node subject (\<lambda>n. n\<lparr>m_observers := m_observers n @ [obs_ptr]\<rparr>) g"

text \<open>
  \<^verbatim>\<open>observable::unregister_observer\<close>: the scan stops at the first entry that holds the
  pointer; with none, the call changes nothing.
\<close>

definition unregister_observer :: "node_id \<Rightarrow> node_id \<Rightarrow> 'a react_graph \<Rightarrow> error + 'a react_graph" where
  "unregister_observer subject raw_obs_ptr g =
     (if raw_obs_ptr \<in> set (m_observers (nodes g subject)) then
        bind_result (detach_observer raw_obs_ptr g) (\<lambda>g1.
          Inr (upd_node subject (\<lambda>n. n\<lparr>m_observers := remove1 raw_obs_ptr (m_observers n)\<rparr>) g1))
      else Inr g)"

definition unregister_self :: "node_id \<Rightarrow> 'a react_graph \<Rightarrow> error + 'a react_graph" where
  "unregister_self self g =
     (case kind (nodes g self) of
        Signal_observer_node m_subject m_func \<Rightarrow>
          (case m_subject of
             Some p \<Rightarrow> unregister_observer p self g
           | None \<Rightarrow> Inr g)
      | _ \<Rightarrow> Inl Ill_typed)"

definition detach_queued_observers :: "'a react_graph \<Rightarrow> error + 'a react_graph" where
  "detach_queued_observers g =
     bind_result (for_each unregister_self (m_detached_observers g) g) (\<lambda>g1.
       Inr (g1\<lparr>m_detached_observers := []\<rparr>))"

text \<open>The handle \<^verbatim>\<open>class observer\<close>: a raw pointer to the node and a shared one to the subject.\<close>

record observer =
  m_node_ptr :: "node_id option"
  m_subject_ptr :: "node_id option"

definition is_valid :: "observer \<Rightarrow> bool" where
  "is_valid h = (m_node_ptr h \<noteq> None)"

definition detach :: "observer \<Rightarrow> 'a react_graph \<Rightarrow> error + 'a react_graph" where
  "detach h g =
     (case m_node_ptr h of
        None \<Rightarrow> Inl Assertion_failed
      | Some node_ptr \<Rightarrow>
          (case m_subject_ptr h of
             None \<Rightarrow> Inl Undefined_behaviour
           | Some subject_ptr \<Rightarrow> unregister_observer subject_ptr node_ptr g))"

subsection \<open>Inputs and transactions\<close>

definition add_simple_input :: "nat \<Rightarrow> node_id \<Rightarrow> 'a val \<Rightarrow> 'a react_graph \<Rightarrow> error + 'a react_graph" where
  "add_simple_input fuel r v g =
     bind_result (var_node_add_input r v g) (\<lambda>g1.
     bind_result (var_node_apply_input r g1) (\<lambda>(changed, g2).
     bind_result (if changed then propagate fuel g2 else Inr g2) detach_queued_observers))"

definition modify_simple_input ::
  "nat \<Rightarrow> node_id \<Rightarrow> ('a val \<Rightarrow> 'a val) \<Rightarrow> 'a react_graph \<Rightarrow> error + 'a react_graph" where
  "modify_simple_input fuel r func g =
     bind_result (var_node_modify_input r func g) (\<lambda>g1.
     bind_result (var_node_apply_input r g1) (\<lambda>(changed, g2).
     bind_result (if changed then propagate fuel g2 else Inr g2) detach_queued_observers))"

definition add_transaction_input :: "node_id \<Rightarrow> 'a val \<Rightarrow> 'a react_graph \<Rightarrow> error + 'a react_graph" where
  "add_transaction_input r v g =
     bind_result (var_node_add_input r v g) (\<lambda>g1.
       Inr (g1\<lparr>m_changed_inputs := m_changed_inputs g1 @ [r]\<rparr>))"

definition modify_transaction_input ::
  "node_id \<Rightarrow> ('a val \<Rightarrow> 'a val) \<Rightarrow> 'a react_graph \<Rightarrow> error + 'a react_graph" where
  "modify_transaction_input r func g =
     bind_result (var_node_modify_input r func g) (\<lambda>g1.
       Inr (g1\<lparr>m_changed_inputs := m_changed_inputs g1 @ [r]\<rparr>))"

definition add_input :: "nat \<Rightarrow> node_id \<Rightarrow> 'a val \<Rightarrow> 'a react_graph \<Rightarrow> error + 'a react_graph" where
  "add_input fuel r v g =
     (if m_transaction_level g > 0 then add_transaction_input r v g
      else add_simple_input fuel r v g)"

definition modify_input ::
  "nat \<Rightarrow> node_id \<Rightarrow> ('a val \<Rightarrow> 'a val) \<Rightarrow> 'a react_graph \<Rightarrow> error + 'a react_graph" where
  "modify_input fuel r func g =
     (if m_transaction_level g > 0 then modify_transaction_input r func g
      else modify_simple_input fuel r func g)"

text \<open>Phase 2 of \<^verbatim>\<open>do_transaction\<close>: the loop over \<^verbatim>\<open>m_changed_inputs\<close>.\<close>

fun apply_changed_inputs ::
  "node_id list \<Rightarrow> bool \<Rightarrow> 'a react_graph \<Rightarrow> error + (bool \<times> 'a react_graph)" where
  "apply_changed_inputs [] should_propagate g = Inr (should_propagate, g)"
| "apply_changed_inputs (p # ps) should_propagate g =
     bind_result (var_node_apply_input p g) (\<lambda>(changed, g1).
       apply_changed_inputs ps (if changed then True else should_propagate) g1)"

text \<open>
  \<^verbatim>\<open>react_graph::do_transaction\<close>. The body \<^verbatim>\<open>func\<close> is user code that acts on the graph;
  the increment and the decrement of the \<^verbatim>\<open>int\<close> counter are undefined at its bounds.
\<close>

definition do_transaction ::
  "nat \<Rightarrow> ('a react_graph \<Rightarrow> error + 'a react_graph) \<Rightarrow> 'a react_graph \<Rightarrow> error + 'a react_graph" where
  "do_transaction fuel func g =
     (if m_transaction_level g = INT_MAX then Inl Undefined_behaviour
      else
        bind_result (func (g\<lparr>m_transaction_level := m_transaction_level g + 1\<rparr>)) (\<lambda>g1.
          if m_transaction_level g1 = - INT_MAX - 1 then Inl Undefined_behaviour
          else
            (let g2 = g1\<lparr>m_transaction_level := m_transaction_level g1 - 1\<rparr> in
             if m_transaction_level g2 \<noteq> 0 then Inr g2
             else
               bind_result (apply_changed_inputs (m_changed_inputs g2) False g2)
                 (\<lambda>(should_propagate, g3).
                    let g4 = g3\<lparr>m_changed_inputs := []\<rparr> in
                    bind_result (if should_propagate then propagate fuel g4 else Inr g4)
                      detach_queued_observers))))"

subsection \<open>Construction of nodes\<close>

definition new_node :: "'a val \<Rightarrow> 'a node_kind \<Rightarrow> 'a react_graph \<Rightarrow> node_id \<times> 'a react_graph" where
  "new_node v k g =
     (next_node g,
      g\<lparr>nodes := (nodes g)(next_node g :=
           \<lparr>level = 0, new_level = 0, queued = False, successors = [], m_observers = [],
            m_value = v, kind = k\<rparr>),
        next_node := Suc (next_node g)\<rparr>)"

definition blank_node :: "'a node" where
  "blank_node = \<lparr>level = 0, new_level = 0, queued = False, successors = [], m_observers = [],
                 m_value = Sig None, kind = Signal_observer_node None (\<lambda>v. Next)\<rparr>"

definition empty_graph :: "'a react_graph" where
  "empty_graph =
     \<lparr>nodes = (\<lambda>n. blank_node), next_node = 0,
      m_scheduled_nodes = \<lparr>m_next_data = [], m_queue_data = []\<rparr>,
      m_transaction_level = 0, m_changed_inputs = [], m_detached_observers = [],
      tick_log = []\<rparr>"

definition make_var :: "'a val \<Rightarrow> 'a react_graph \<Rightarrow> node_id \<times> 'a react_graph" where
  "make_var v g =
     new_node v (Var_node \<lparr>m_new_value = v, m_is_input_added = False, m_is_input_modified = False\<rparr>) g"

definition attach :: "'a function_op \<Rightarrow> node_id \<Rightarrow> 'a react_graph \<Rightarrow> error + 'a react_graph" where
  "attach m_op node g = for_each (\<lambda>dep_ptr. on_node_attach node dep_ptr) (leaves m_op) g"

definition make_signal :: "'a function_op \<Rightarrow> 'a react_graph \<Rightarrow> error + (node_id \<times> 'a react_graph)" where
  "make_signal m_op g =
     (case new_node (evaluate (value_ref g) m_op) (Signal_op_node m_op) g of
        (self, g1) \<Rightarrow> bind_result (attach m_op self g1) (\<lambda>g2. Inr (self, g2)))"

definition flatten :: "node_id \<Rightarrow> 'a react_graph \<Rightarrow> error + (node_id \<times> 'a react_graph)" where
  "flatten outer g =
     (case m_value (nodes g outer) of
        Val x \<Rightarrow> Inl Ill_typed
      | Sig None \<Rightarrow> Inl Undefined_behaviour
      | Sig (Some inner) \<Rightarrow>
          (case new_node (m_value (nodes g inner)) (Flatten_node outer inner) g of
             (self, g1) \<Rightarrow>
               bind_result (on_node_attach self outer g1) (\<lambda>g2.
               bind_result (on_node_attach self inner g2) (\<lambda>g3. Inr (self, g3)))))"

definition observe ::
  "node_id \<Rightarrow> ('a val \<Rightarrow> observer_action) \<Rightarrow> 'a react_graph \<Rightarrow> error + (observer \<times> 'a react_graph)" where
  "observe subject func g =
     (case new_node (Sig None) (Signal_observer_node (Some subject) func) g of
        (raw_node_ptr, g1) \<Rightarrow>
          bind_result (on_node_attach raw_node_ptr subject g1) (\<lambda>g2.
            Inr (\<lparr>m_node_ptr = Some raw_node_ptr, m_subject_ptr = Some subject\<rparr>,
                 register_observer subject raw_node_ptr g2)))"

subsection \<open>Programs over the public interface\<close>

text \<open>
  A sequence of calls of the public interface, as a client can write it: the
  constructors, \<^verbatim>\<open>set\<close> and \<^verbatim>\<open>modify\<close> of a var signal, \<^verbatim>\<open>detach\<close> of an observer handle, and a
  transaction whose body is such a sequence. A C++ program can hand a constructor only
  nodes that exist; the run stops with \<open>Ill_typed\<close> where a call names a node that does
  not exist yet.
\<close>

datatype 'a api_call =
    Make_var "'a val"
  | Make_signal "'a function_op"
  | Flatten node_id
  | Observe node_id "'a val \<Rightarrow> observer_action"
  | Set_value node_id "'a val"
  | Modify_value node_id "'a val \<Rightarrow> 'a val"
  | Detach observer
  | Do_transaction "'a api_call list"

definition existing_inner :: "'a react_graph \<Rightarrow> node_id \<Rightarrow> bool" where
  "existing_inner g outer =
     (case m_value (nodes g outer) of
        Sig (Some inner) \<Rightarrow> inner < next_node g
      | _ \<Rightarrow> True)"

fun run_call :: "nat \<Rightarrow> 'a api_call \<Rightarrow> 'a react_graph \<Rightarrow> error + 'a react_graph"
  and run_calls :: "nat \<Rightarrow> 'a api_call list \<Rightarrow> 'a react_graph \<Rightarrow> error + 'a react_graph" where
  "run_call fuel (Make_var v) g = Inr (snd (make_var v g))"
| "run_call fuel (Make_signal m_op) g =
     (if list_all (\<lambda>d. d < next_node g) (leaves m_op)
      then bind_result (make_signal m_op g) (\<lambda>(self, g1). Inr g1)
      else Inl Ill_typed)"
| "run_call fuel (Flatten outer) g =
     (if outer < next_node g \<and> existing_inner g outer
      then bind_result (flatten outer g) (\<lambda>(self, g1). Inr g1)
      else Inl Ill_typed)"
| "run_call fuel (Observe subject func) g =
     (if subject < next_node g
      then bind_result (observe subject func g) (\<lambda>(h, g1). Inr g1)
      else Inl Ill_typed)"
| "run_call fuel (Set_value r v) g = add_input fuel r v g"
| "run_call fuel (Modify_value r func) g = modify_input fuel r func g"
| "run_call fuel (Detach h) g = detach h g"
| "run_call fuel (Do_transaction body) g = do_transaction fuel (\<lambda>g1. run_calls fuel body g1) g"
| "run_calls fuel [] g = Inr g"
| "run_calls fuel (c # cs) g = bind_result (run_call fuel c g) (run_calls fuel cs)"

subsection \<open>Auxiliary notions for the statements\<close>

text \<open>
  \<open>same_control\<close>: two graphs agree on what neither a commit nor propagation nor the
  detaching of observers touches. \<open>apply_each\<close> collects the results of \<^verbatim>\<open>apply_input\<close> on
  the nodes of a list, in order; it states what the flag of \<^verbatim>\<open>do_transaction\<close> is.
\<close>

definition same_control :: "'a react_graph \<Rightarrow> 'a react_graph \<Rightarrow> bool" where
  "same_control g g' =
     (next_node g' = next_node g \<and> m_transaction_level g' = m_transaction_level g \<and>
      m_changed_inputs g' = m_changed_inputs g)"

fun apply_each :: "node_id list \<Rightarrow> 'a react_graph \<Rightarrow> error + (bool list \<times> 'a react_graph)" where
  "apply_each [] g = Inr ([], g)"
| "apply_each (p # ps) g =
     bind_result (var_node_apply_input p g) (\<lambda>(changed, g1).
     bind_result (apply_each ps g1) (\<lambda>(results, g2). Inr (changed # results, g2)))"

text \<open>
  \<open>invalidated\<close>: the graph after \<^verbatim>\<open>invalidate_successors\<close> has returned, in closed form.
\<close>

definition invalidated :: "node_id \<Rightarrow> 'a react_graph \<Rightarrow> 'a react_graph" where
  "invalidated node g =
     g\<lparr>nodes := (\<lambda>m. if m \<in> set (successors (nodes g node)) \<and>
                          new_level (nodes g m) \<le> level (nodes g node)
                       then (nodes g m)\<lparr>new_level := level (nodes g node) + 1\<rparr>
                       else nodes g m)\<rparr>"

text \<open>
  The invariant of the levels. \<open>edges_ok\<close>: every successor is a node that exists, and
  every edge leads to a node whose level, or whose pending level \<open>new_level\<close>, is above
  that of its source. \<open>edges_ok_except n\<close> is the state between a raise of the level of
  \<open>n\<close> and the invalidation of its successors. \<open>queue_ok\<close>: the queue holds nodes that
  exist.
\<close>

definition edges_ok :: "'a react_graph \<Rightarrow> bool" where
  "edges_ok g =
     (\<forall>p s. s \<in> set (successors (nodes g p)) \<longrightarrow>
        s < next_node g \<and>
        level (nodes g p) < max (level (nodes g s)) (new_level (nodes g s)))"

definition edges_ok_except :: "node_id \<Rightarrow> 'a react_graph \<Rightarrow> bool" where
  "edges_ok_except n g =
     (\<forall>p s. s \<in> set (successors (nodes g p)) \<longrightarrow>
        s < next_node g \<and>
        (p \<noteq> n \<longrightarrow> level (nodes g p) < max (level (nodes g s)) (new_level (nodes g s))))"

definition queue_ok :: "'a react_graph \<Rightarrow> bool" where
  "queue_ok g = (\<forall>e\<in>set (m_queue_data (m_scheduled_nodes g)). fst e < next_node g)"

definition graph_inv :: "'a react_graph \<Rightarrow> bool" where
  "graph_inv g = (edges_ok g \<and> queue_ok g)"

subsection \<open>Example graphs\<close>

text \<open>
  Small graphs on which the statements below are run: a var node with a set staged, and
  a var node \<open>0\<close> with a computed node \<open>1\<close> on it and an observer \<open>2\<close> of that.
\<close>

definition staged_var_graph :: "int react_graph" where
  "staged_var_graph =
     upd_node 0 (\<lambda>n. n\<lparr>kind := Var_node \<lparr>m_new_value = Val 2, m_is_input_added = True,
                                          m_is_input_modified = False\<rparr>\<rparr>)
       (snd (make_var (Val 1) empty_graph))"

definition incr :: "int val list \<Rightarrow> int val" where
  "incr args = (case args of [Val x] \<Rightarrow> Val (x + 1) | _ \<Rightarrow> Sig None)"

definition example_graph :: "int react_graph" where
  "example_graph =
     (case run_calls 0 [Make_var (Val 1), Make_signal (Function_op incr [Dep_node 0]),
                        Observe 1 (\<lambda>v. Next)] empty_graph of
        Inr g \<Rightarrow> g
      | Inl e \<Rightarrow> empty_graph)"

text \<open>
  A flatten node \<open>4\<close> over the outer var node \<open>3\<close>, which holds the var node \<open>0\<close>; a
  computed node \<open>5\<close> on the flatten node; and a computed node \<open>2\<close>, at level one, on the var
  node \<open>1\<close>. \<open>rewired_graph\<close> is that graph after the outer node has been set to the node
  \<open>2\<close>, whose value equals that of node \<open>0\<close>.
\<close>

definition flatten_calls :: "int api_call list" where
  "flatten_calls =
     [Make_var (Val 10), Make_var (Val 10), Make_signal (Function_op hd [Dep_node 1]),
      Make_var (Sig (Some 0)), Flatten 3, Make_signal (Function_op incr [Dep_node 4])]"

definition flatten_graph :: "int react_graph" where
  "flatten_graph =
     (case run_calls 0 flatten_calls empty_graph of Inr g \<Rightarrow> g | Inl e \<Rightarrow> empty_graph)"

definition rewired_graph :: "int react_graph" where
  "rewired_graph =
     (case run_calls 3 (flatten_calls @ [Set_value 3 (Sig (Some 2))]) empty_graph of
        Inr g \<Rightarrow> g
      | Inl e \<Rightarrow> empty_graph)"

text \<open>
  The handle of the observer \<open>2\<close> of the example graph, and that graph after one \<^verbatim>\<open>detach\<close>
  through the handle.
\<close>

definition example_observer :: observer where
  "example_observer = \<lparr>m_node_ptr = Some 2, m_subject_ptr = Some 1\<rparr>"

definition example_detached :: "int react_graph" where
  "example_detached =
     (case detach example_observer example_graph of Inr g \<Rightarrow> g | Inl e \<Rightarrow> empty_graph)"

section \<open>Properties\<close>

subsection \<open>The partition\<close>

lemma find_if_not_le: "find_if_not q xs \<le> length xs"
  by (induction xs) auto

lemma find_if_not_prefix: "i < find_if_not q xs \<Longrightarrow> q (xs ! i)"
proof (induction xs arbitrary: i)
  case Nil
  then show ?case by simp
next
  case (Cons x xs)
  then show ?case by (cases i) (auto split: if_splits)
qed

lemma find_if_not_stop: "find_if_not q xs < length xs \<Longrightarrow> \<not> q (xs ! find_if_not q xs)"
  by (induction xs) auto

lemma length_iter_swap [simp]: "length (iter_swap xs a b) = length xs"
  by (simp add: iter_swap_def)

lemma mset_iter_swap: "a < length xs \<Longrightarrow> b < length xs \<Longrightarrow> mset (iter_swap xs a b) = mset xs"
  by (simp add: iter_swap_def mset_swap)

lemma nth_iter_swap:
  "a < length xs \<Longrightarrow> b < length xs \<Longrightarrow> k < length xs \<Longrightarrow>
   iter_swap xs a b ! k = (if k = b then xs ! a else if k = a then xs ! b else xs ! k)"
  by (auto simp: iter_swap_def nth_list_update)

text \<open>
  The invariant of the loop: the entries before \<open>first\<close> satisfy the predicate, those
  from \<open>first\<close> up to \<open>i\<close> do not.
\<close>

lemma partition_loop_spec:
  assumes "first < i" "i \<le> length xs"
    and "\<forall>k<first. p (xs ! k)"
    and "\<forall>k. first \<le> k \<and> k < i \<longrightarrow> \<not> p (xs ! k)"
    and "partition_loop p xs first i = (ys, r)"
  shows "mset ys = mset xs \<and> r \<le> length ys \<and> (\<forall>k<r. p (ys ! k)) \<and>
         (\<forall>k. r \<le> k \<and> k < length ys \<longrightarrow> \<not> p (ys ! k))"
  using assms
proof (induction p xs first i arbitrary: ys r rule: partition_loop.induct)
  case (1 p xs first i)
  show ?case
  proof (cases "i < length xs")
    case False
    then have "partition_loop p xs first i = (xs, first)"
      by (subst partition_loop.simps) simp
    with "1.prems"(5) have "ys = xs" "r = first" by simp_all
    moreover have "i = length xs" using False "1.prems"(2) by simp
    ultimately show ?thesis using "1.prems"(1,3,4) by auto
  next
    case inb: True
    show ?thesis
    proof (cases "p (xs ! i)")
      case True
      let ?zs = "iter_swap xs i first"
      have fl: "first < length xs" using "1.prems"(1) inb by simp
      have a: "\<forall>k<Suc first. p (?zs ! k)"
      proof (intro allI impI)
        fix k assume "k < Suc first"
        then show "p (?zs ! k)"
          using True "1.prems"(1,3) inb fl by (cases "k = first") (auto simp: nth_iter_swap)
      qed
      have b: "\<forall>k. Suc first \<le> k \<and> k < Suc i \<longrightarrow> \<not> p (?zs ! k)"
      proof (intro allI impI)
        fix k assume k: "Suc first \<le> k \<and> k < Suc i"
        show "\<not> p (?zs ! k)"
        proof (cases "k = i")
          case True
          then show ?thesis using "1.prems"(1,4) inb fl by (simp add: nth_iter_swap)
        next
          case False
          then show ?thesis using k "1.prems"(1,4) inb fl by (simp add: nth_iter_swap)
        qed
      qed
      have "partition_loop p xs first i = partition_loop p ?zs (Suc first) (Suc i)"
        using inb True by (subst partition_loop.simps) simp
      then have "partition_loop p ?zs (Suc first) (Suc i) = (ys, r)"
        using "1.prems"(5) by simp
      from "1.IH"(1) [OF inb True _ _ a b this]
      have "mset ys = mset ?zs \<and> r \<le> length ys \<and> (\<forall>k<r. p (ys ! k)) \<and>
            (\<forall>k. r \<le> k \<and> k < length ys \<longrightarrow> \<not> p (ys ! k))"
        using "1.prems"(1) inb by simp
      then show ?thesis using mset_iter_swap [OF inb fl] by simp
    next
      case False
      have b: "\<forall>k. first \<le> k \<and> k < Suc i \<longrightarrow> \<not> p (xs ! k)"
        using False "1.prems"(4) by (auto simp: less_Suc_eq)
      have "partition_loop p xs first i = partition_loop p xs first (Suc i)"
        using inb False by (subst partition_loop.simps) simp
      then have "partition_loop p xs first (Suc i) = (ys, r)"
        using "1.prems"(5) by simp
      from "1.IH"(2) [OF inb False _ _ "1.prems"(3) b this]
      show ?thesis using "1.prems"(1) inb by simp
    qed
  qed
qed

lemma partition_vec_spec:
  assumes "partition_vec p xs = (ys, r)"
  shows "mset ys = mset xs \<and> r \<le> length ys \<and> (\<forall>k<r. p (ys ! k)) \<and>
         (\<forall>k. r \<le> k \<and> k < length ys \<longrightarrow> \<not> p (ys ! k))"
proof (cases "find_if_not p xs = length xs")
  case True
  with assms have e: "ys = xs" "r = length xs"
    by (auto simp: partition_vec_def)
  have "\<forall>k<length xs. p (xs ! k)"
    using True find_if_not_prefix [of _ p xs] by simp
  then show ?thesis using e by simp
next
  case False
  let ?f = "find_if_not p xs"
  have fl: "?f < length xs" using False find_if_not_le [of p xs] by simp
  have pl: "partition_loop p xs ?f (Suc ?f) = (ys, r)"
    using assms False by (simp add: partition_vec_def Let_def)
  have a: "\<forall>k<?f. p (xs ! k)" using find_if_not_prefix by blast
  have b: "\<forall>k. ?f \<le> k \<and> k < Suc ?f \<longrightarrow> \<not> p (xs ! k)"
    using find_if_not_stop [OF fl] by (auto simp: less_Suc_eq)
  show ?thesis
    by (rule partition_loop_spec [OF _ _ a b pl]) (use fl in simp_all)
qed

lemma partition_vec_mset:
  assumes "partition_vec p xs = (ys, r)"
  shows "mset (take r ys) = filter_mset p (mset xs)"
    and "mset (drop r ys) = filter_mset (\<lambda>x. \<not> p x) (mset xs)"
proof -
  from partition_vec_spec [OF assms]
  have m: "mset ys = mset xs" and r: "r \<le> length ys"
    and lo: "\<forall>k<r. p (ys ! k)" and hi: "\<forall>k. r \<le> k \<and> k < length ys \<longrightarrow> \<not> p (ys ! k)"
    by auto
  have t: "\<forall>x\<in>set (take r ys). p x"
    using lo r by (auto simp: in_set_conv_nth)
  have d: "\<forall>x\<in>set (drop r ys). \<not> p x"
  proof
    fix x assume "x \<in> set (drop r ys)"
    then obtain k where "k < length ys - r" "x = ys ! (r + k)"
      by (auto simp: in_set_conv_nth)
    then show "\<not> p x" using hi by simp
  qed
  have "mset xs = mset (take r ys) + mset (drop r ys)"
    using m by (metis append_take_drop_id mset_append)
  then have f: "filter_mset p (mset xs) = filter_mset p (mset (take r ys)) + filter_mset p (mset (drop r ys))"
    and g: "filter_mset (\<lambda>x. \<not> p x) (mset xs) =
            filter_mset (\<lambda>x. \<not> p x) (mset (take r ys)) + filter_mset (\<lambda>x. \<not> p x) (mset (drop r ys))"
    by simp_all
  have t1: "filter_mset p (mset (take r ys)) = mset (take r ys)"
    using t by (simp add: filter_mset_eq_conv)
  have t2: "filter_mset (\<lambda>x. \<not> p x) (mset (take r ys)) = {#}"
    using t by simp
  have d1: "filter_mset p (mset (drop r ys)) = {#}"
    using d by simp
  have d2: "filter_mset (\<lambda>x. \<not> p x) (mset (drop r ys)) = mset (drop r ys)"
    using d by (simp add: filter_mset_eq_conv)
  show "mset (take r ys) = filter_mset p (mset xs)" using f t1 d1 by simp
  show "mset (drop r ys) = filter_mset (\<lambda>x. \<not> p x) (mset xs)" using g t2 d2 by simp
qed

subsection \<open>Sequencing and the store\<close>

lemma bind_result_Inr:
  "bind_result m f = Inr y \<longleftrightarrow> (\<exists>x. m = Inr x \<and> f x = Inr y)"
  by (cases m) auto

lemma for_each_preserves:
  assumes "for_each body xs s = Inr s'" and "P s"
    and "\<And>x t t'. x \<in> set xs \<Longrightarrow> P t \<Longrightarrow> body x t = Inr t' \<Longrightarrow> P t'"
  shows "P s'"
  using assms
proof (induction xs arbitrary: s)
  case Nil
  then show ?case by simp
next
  case (Cons x xs)
  from Cons.prems(1) obtain t where t: "body x s = Inr t" and r: "for_each body xs t = Inr s'"
    by (auto simp: bind_result_Inr)
  have "P t" by (rule Cons.prems(3) [of x s t]) (simp_all add: Cons.prems(2) t)
  show ?case
  proof (rule Cons.IH [OF r \<open>P t\<close>])
    fix y u u' assume "y \<in> set xs" "P u" "body y u = Inr u'"
    then show "P u'" using Cons.prems(3) [of y u u'] by simp
  qed
qed

lemma nodes_upd_node [simp]:
  "nodes (upd_node n f g) m = (if m = n then f (nodes g n) else nodes g m)"
  by (simp add: upd_node_def)

lemma upd_node_fields [simp]:
  "next_node (upd_node n f g) = next_node g"
  "m_scheduled_nodes (upd_node n f g) = m_scheduled_nodes g"
  "m_transaction_level (upd_node n f g) = m_transaction_level g"
  "m_changed_inputs (upd_node n f g) = m_changed_inputs g"
  "m_detached_observers (upd_node n f g) = m_detached_observers g"
  "tick_log (upd_node n f g) = tick_log g"
  by (simp_all add: upd_node_def)

lemma upd_node_twice: "upd_node n f (upd_node n h g) = upd_node n (\<lambda>x. f (h x)) g"
  by (simp add: upd_node_def)

lemma var_members_all:
  "(v :: 'a var_members)\<lparr>m_new_value := x, m_is_input_added := a, m_is_input_modified := m\<rparr> =
   \<lparr>m_new_value = x, m_is_input_added = a, m_is_input_modified = m\<rparr>"
  by (cases v) simp

lemma process_children_frame [simp]:
  "next_node (process_children n g) = next_node g"
  "m_transaction_level (process_children n g) = m_transaction_level g"
  "m_changed_inputs (process_children n g) = m_changed_inputs g"
  "m_detached_observers (process_children n g) = m_detached_observers g"
  "tick_log (process_children n g) = tick_log g"
proof -
  let ?step = "\<lambda>succ g. if \<not> queued (nodes g succ)
             then (upd_node succ (\<lambda>n. n\<lparr>queued := True\<rparr>) g)
                    \<lparr>m_scheduled_nodes := push succ (level (nodes g succ)) (m_scheduled_nodes g)\<rparr>
             else (g :: 'a react_graph)"
  have "next_node (fold ?step xs g) = next_node g \<and>
        m_transaction_level (fold ?step xs g) = m_transaction_level g \<and>
        m_changed_inputs (fold ?step xs g) = m_changed_inputs g \<and>
        m_detached_observers (fold ?step xs g) = m_detached_observers g \<and>
        tick_log (fold ?step xs g) = tick_log g" for xs g
    by (induction xs arbitrary: g) auto
  then show "next_node (process_children n g) = next_node g"
  "m_transaction_level (process_children n g) = m_transaction_level g"
  "m_changed_inputs (process_children n g) = m_changed_inputs g"
  "m_detached_observers (process_children n g) = m_detached_observers g"
  "tick_log (process_children n g) = tick_log g"
    by (simp_all add: process_children_def)
qed

text \<open>What the scheduling of the successors changes in a node: only the flag.\<close>

lemma process_children_node:
  "nodes (process_children n g) m =
     (if m \<in> set (successors (nodes g n)) then (nodes g m)\<lparr>queued := True\<rparr> else nodes g m)"
proof -
  let ?step = "\<lambda>succ g. if \<not> queued (nodes g succ)
             then (upd_node succ (\<lambda>n. n\<lparr>queued := True\<rparr>) g)
                    \<lparr>m_scheduled_nodes := push succ (level (nodes g succ)) (m_scheduled_nodes g)\<rparr>
             else (g :: 'a react_graph)"
  have "nodes (fold ?step xs g) m = (if m \<in> set xs then (nodes g m)\<lparr>queued := True\<rparr> else nodes g m)" for xs g
  proof (induction xs arbitrary: g)
    case Nil
    then show ?case by simp
  next
    case (Cons x xs)
    show ?case by (simp add: Cons.IH) 
  qed
  then show ?thesis by (simp add: process_children_def)
qed

lemma process_children_queue:
  "m_next_data (m_scheduled_nodes (process_children n g)) = m_next_data (m_scheduled_nodes g) \<and>
   set (m_queue_data (m_scheduled_nodes (process_children n g))) =
     set (m_queue_data (m_scheduled_nodes g)) \<union>
     {(s, level (nodes g s)) | s. s \<in> set (successors (nodes g n)) \<and> \<not> queued (nodes g s)}"
proof -
  let ?step = "\<lambda>succ g. if \<not> queued (nodes g succ)
             then (upd_node succ (\<lambda>n. n\<lparr>queued := True\<rparr>) g)
                    \<lparr>m_scheduled_nodes := push succ (level (nodes g succ)) (m_scheduled_nodes g)\<rparr>
             else (g :: 'a react_graph)"
  have "m_next_data (m_scheduled_nodes (fold ?step xs g)) = m_next_data (m_scheduled_nodes g) \<and>
        set (m_queue_data (m_scheduled_nodes (fold ?step xs g))) =
        set (m_queue_data (m_scheduled_nodes g)) \<union>
        {(s, level (nodes g s)) | s. s \<in> set xs \<and> \<not> queued (nodes g s)}" for xs g
  proof (induction xs arbitrary: g)
    case Nil
    then show ?case by simp
  next
    case (Cons x xs)
    show ?case
    proof (cases "queued (nodes g x)")
      case True
      then show ?thesis using Cons.IH [of g] by auto
    next
      case False
      then show ?thesis using Cons.IH [of "?step x g"] by (auto simp: push_def)
    qed
  qed
  then show ?thesis by (simp add: process_children_def)
qed

lemma process_children_no_successors [simp]:
  "successors (nodes g n) = [] \<Longrightarrow> process_children n g = g"
  by (simp add: process_children_def)

lemma invalidate_loop:
  assumes "for_each (\<lambda>succ g.
                 if new_level (nodes g succ) \<le> level (nodes g node) then
                   (if level (nodes g node) = INT_MAX then Inl Undefined_behaviour
                    else Inr (upd_node succ (\<lambda>n. n\<lparr>new_level := level (nodes g node) + 1\<rparr>) g))
                 else Inr g) xs g = Inr g'"
  shows "g' = g\<lparr>nodes := (\<lambda>m. if m \<in> set xs \<and> new_level (nodes g m) \<le> level (nodes g node)
                       then (nodes g m)\<lparr>new_level := level (nodes g node) + 1\<rparr>
                       else nodes g m)\<rparr>"
  using assms
proof (induction xs arbitrary: g)
  case Nil
  then show ?case by simp
next
  case (Cons x xs)
  let ?body = "\<lambda>succ g.
                 if new_level (nodes g succ) \<le> level (nodes g node) then
                   (if level (nodes g node) = INT_MAX then Inl Undefined_behaviour
                    else Inr (upd_node succ (\<lambda>n. n\<lparr>new_level := level (nodes g node) + 1\<rparr>) g))
                 else Inr (g :: 'a react_graph)"
  from Cons.prems obtain g1 where a: "?body x g = Inr g1" and b: "for_each ?body xs g1 = Inr g'"
    by (auto simp: bind_result_Inr)
  note ih = Cons.IH [OF b]
  show ?case
  proof (cases "new_level (nodes g x) \<le> level (nodes g node)")
    case False
    with a have "g1 = g" by simp
    with ih False show ?thesis by (auto simp: fun_eq_iff)
  next
    case True
    with a have g1: "g1 = upd_node x (\<lambda>n. n\<lparr>new_level := level (nodes g node) + 1\<rparr>) g"
      by (auto split: if_splits)
    have l: "level (nodes g1 node) = level (nodes g node)" by (simp add: g1)
    show ?thesis
      unfolding ih l using True
      by (auto simp: g1 upd_node_def fun_eq_iff)
  qed
qed

lemma invalidate_successors_Inr:
  "invalidate_successors node g = Inr g' \<Longrightarrow> g' = invalidated node g"
  unfolding invalidate_successors_def invalidated_def by (rule invalidate_loop)

lemma invalidate_loop_total:
  assumes "level (nodes g node) \<noteq> INT_MAX"
  shows "\<exists>g'. for_each (\<lambda>succ g.
                 if new_level (nodes g succ) \<le> level (nodes g node) then
                   (if level (nodes g node) = INT_MAX then Inl Undefined_behaviour
                    else Inr (upd_node succ (\<lambda>n. n\<lparr>new_level := level (nodes g node) + 1\<rparr>) g))
                 else Inr g) xs g = Inr g'"
  using assms
proof (induction xs arbitrary: g)
  case Nil
  then show ?case by simp
next
  case (Cons x xs)
  show ?case
  proof (cases "new_level (nodes g x) \<le> level (nodes g node)")
    case False
    then show ?thesis using Cons.IH [OF Cons.prems] by simp
  next
    case True
    let ?g1 = "upd_node x (\<lambda>n. n\<lparr>new_level := level (nodes g node) + 1\<rparr>) g"
    have "level (nodes ?g1 node) \<noteq> INT_MAX" using Cons.prems by auto
    from Cons.IH [OF this] show ?thesis using True Cons.prems by simp
  qed
qed

lemma invalidate_successors_eq:
  assumes "level (nodes g node) \<noteq> INT_MAX"
  shows "invalidate_successors node g = Inr (invalidated node g)"
proof -
  from invalidate_loop_total [OF assms, of "successors (nodes g node)"]
  obtain g' where "invalidate_successors node g = Inr g'"
    by (auto simp: invalidate_successors_def)
  then show ?thesis using invalidate_successors_Inr by blast
qed

lemma invalidated_fields [simp]:
  "next_node (invalidated n g) = next_node g"
  "m_scheduled_nodes (invalidated n g) = m_scheduled_nodes g"
  "m_transaction_level (invalidated n g) = m_transaction_level g"
  "m_changed_inputs (invalidated n g) = m_changed_inputs g"
  "m_detached_observers (invalidated n g) = m_detached_observers g"
  "tick_log (invalidated n g) = tick_log g"
  by (simp_all add: invalidated_def)

lemma invalidated_node [simp]:
  "level (nodes (invalidated n g) m) = level (nodes g m)"
  "queued (nodes (invalidated n g) m) = queued (nodes g m)"
  "successors (nodes (invalidated n g) m) = successors (nodes g m)"
  "m_observers (nodes (invalidated n g) m) = m_observers (nodes g m)"
  "m_value (nodes (invalidated n g) m) = m_value (nodes g m)"
  "kind (nodes (invalidated n g) m) = kind (nodes g m)"
  by (simp_all add: invalidated_def)

lemma invalidated_new_level:
  "new_level (nodes (invalidated n g) m) =
     (if m \<in> set (successors (nodes g n)) then max (new_level (nodes g m)) (level (nodes g n) + 1)
      else new_level (nodes g m))"
  by (auto simp: invalidated_def)

subsection \<open>What a commit, propagation and the detaching of observers leave alone\<close>

lemma same_control_refl [simp]: "same_control g g"
  by (simp add: same_control_def)

lemma same_control_trans: "same_control g g1 \<Longrightarrow> same_control g1 g2 \<Longrightarrow> same_control g g2"
  by (simp add: same_control_def)

lemma on_node_attach_control:
  "on_node_attach node parent g1 = Inr g2 \<Longrightarrow> same_control g1 g2"
  by (auto simp: on_node_attach_def Let_def same_control_def split: if_splits)

lemma on_node_detach_control:
  "on_node_detach node parent g1 = Inr g2 \<Longrightarrow> same_control g1 g2"
  by (auto simp: on_node_detach_def same_control_def split: if_splits)

lemma invalidate_successors_control:
  assumes "invalidate_successors node g1 = Inr g2"
  shows "same_control g1 g2"
  using assms unfolding invalidate_successors_def
  by (rule for_each_preserves) (auto simp: same_control_def split: if_splits)

lemma on_dynamic_node_attach_control:
  "on_dynamic_node_attach node parent g1 = Inr g2 \<Longrightarrow> same_control g1 g2"
  by (auto simp: on_dynamic_node_attach_def Let_def bind_result_Inr same_control_def
      dest!: on_node_attach_control invalidate_successors_control)

lemma tick_control:
  assumes "tick n g1 = Inr g2"
  shows "same_control g1 g2"
proof (cases "kind (nodes g1 n)")
  case (Var_node v)
  then show ?thesis using assms by (simp add: tick_def var_node_tick_def)
next
  case (Signal_op_node m_op)
  then show ?thesis using assms
    by (auto simp: tick_def signal_op_node_tick_def Let_def on_node_pulse_def same_control_def
        split: if_splits)
next
  case (Flatten_node m_outer m_inner)
  then show ?thesis using assms
    by (auto simp: tick_def flatten_node_tick_def Let_def on_node_pulse_def bind_result_Inr
        on_dynamic_node_detach_def same_control_def
        dest!: on_node_detach_control on_dynamic_node_attach_control
        split: if_splits val.splits option.splits)
next
  case (Signal_observer_node m_subject m_func)
  then show ?thesis using assms
    by (auto simp: tick_def signal_observer_node_tick_def Let_def queue_observer_for_detach_def
        same_control_def split: if_splits)
qed

lemma propagate_wave_control:
  "propagate_wave ns g1 = Inr g2 \<Longrightarrow> same_control g1 g2"
proof (induction ns arbitrary: g1)
  case Nil
  then show ?case by simp
next
  case (Cons n ns)
  show ?case
  proof (cases "level (nodes g1 n) < new_level (nodes g1 n)")
    case True
    with Cons.prems obtain g3 where
      a: "invalidate_successors n (upd_node n (\<lambda>n. n\<lparr>level := new_level n\<rparr>) g1) = Inr g3"
      and b: "propagate_wave ns
                (g3\<lparr>m_scheduled_nodes := push n (level (nodes g3 n)) (m_scheduled_nodes g3)\<rparr>) = Inr g2"
      by (auto simp: bind_result_Inr)
    from invalidate_successors_control [OF a] Cons.IH [OF b] show ?thesis
      by (simp add: same_control_def)
  next
    case False
    with Cons.prems obtain g3 where
      a: "tick n (upd_node n (\<lambda>n. n\<lparr>queued := False\<rparr>) g1) = Inr g3"
      and b: "propagate_wave ns g3 = Inr g2"
      by (auto simp: bind_result_Inr)
    from tick_control [OF a] Cons.IH [OF b] show ?thesis
      by (simp add: same_control_def)
  qed
qed

lemma propagate_control:
  "propagate fuel g1 = Inr g2 \<Longrightarrow> same_control g1 g2"
proof (induction fuel arbitrary: g1)
  case 0
  then show ?case by simp
next
  case (Suc fuel)
  obtain b q where f: "fetch_next (m_scheduled_nodes g1) = (b, q)"
    by (cases "fetch_next (m_scheduled_nodes g1)")
  show ?case
  proof (cases b)
    case False
    then show ?thesis using Suc.prems f by (auto simp: same_control_def)
  next
    case True
    with Suc.prems f obtain g3 where
      a: "propagate_wave (next_values q) (g1\<lparr>m_scheduled_nodes := q\<rparr>) = Inr g3"
      and b: "propagate fuel g3 = Inr g2"
      by (auto simp: bind_result_Inr)
    from propagate_wave_control [OF a] Suc.IH [OF b] show ?thesis
      by (simp add: same_control_def)
  qed
qed

lemma detach_observer_control:
  "detach_observer n g1 = Inr g2 \<Longrightarrow> same_control g1 g2"
  by (auto simp: detach_observer_def bind_result_Inr same_control_def
      dest!: on_node_detach_control split: node_kind.splits option.splits)

lemma unregister_observer_control:
  "unregister_observer s n g1 = Inr g2 \<Longrightarrow> same_control g1 g2"
  by (auto simp: unregister_observer_def bind_result_Inr same_control_def
      dest!: detach_observer_control split: if_splits)

lemma unregister_self_control:
  "unregister_self n g1 = Inr g2 \<Longrightarrow> same_control g1 g2"
  by (auto simp: unregister_self_def dest!: unregister_observer_control
      split: node_kind.splits option.splits)

lemma detach_queued_observers_control:
  assumes "detach_queued_observers g1 = Inr g2"
  shows "same_control g1 g2 \<and> m_detached_observers g2 = []"
proof -
  from assms obtain g3 where f: "for_each unregister_self (m_detached_observers g1) g1 = Inr g3"
    and e: "g2 = g3\<lparr>m_detached_observers := []\<rparr>"
    by (auto simp: detach_queued_observers_def bind_result_Inr)
  have "same_control g1 g3"
    using f by (rule for_each_preserves) (auto dest!: unregister_self_control simp: same_control_def)
  then show ?thesis using e by (simp add: same_control_def)
qed

lemma var_node_apply_input_control:
  "var_node_apply_input p g1 = Inr (c, g2) \<Longrightarrow> same_control g1 g2"
  by (auto simp: var_node_apply_input_def Let_def on_input_change_def same_control_def
      split: node_kind.splits if_splits)

lemma apply_each_control:
  "apply_each ps g1 = Inr (rs, g2) \<Longrightarrow> same_control g1 g2"
proof (induction ps arbitrary: g1 rs)
  case Nil
  then show ?case by simp
next
  case (Cons p ps)
  from Cons.prems obtain c g3 rs' where
    a: "var_node_apply_input p g1 = Inr (c, g3)" and b: "apply_each ps g3 = Inr (rs', g2)"
    by (auto simp: bind_result_Inr split: prod.splits)
  from var_node_apply_input_control [OF a] Cons.IH [OF b] show ?case
    by (simp add: same_control_def)
qed

lemma apply_changed_inputs_each:
  "apply_changed_inputs ps b g =
     bind_result (apply_each ps g) (\<lambda>(results, g'). Inr (b \<or> True \<in> set results, g'))"
proof (induction ps arbitrary: b g)
  case Nil
  then show ?case by simp
next
  case (Cons p ps)
  show ?case
  proof (cases "var_node_apply_input p g")
    case (Inl e)
    then show ?thesis by simp
  next
    case (Inr cg)
    obtain c g1 where cg: "cg = (c, g1)" by (cases cg)
    show ?thesis
    proof (cases "apply_each ps g1")
      case (Inl e)
      then show ?thesis using Inr cg Cons.IH [of "if c then True else b" g1] by simp
    next
      case r: (Inr rg)
      obtain rs g2 where "rg = (rs, g2)" by (cases rg)
      then show ?thesis using Inr cg r Cons.IH [of "if c then True else b" g1] by auto
    qed
  qed
qed

subsection \<open>The example graphs\<close>

lemmas construct_defs =
  make_var_def make_signal_def flatten_def observe_def new_node_def attach_def
  on_node_attach_def register_observer_def empty_graph_def blank_node_def INT_MAX_def
  existing_inner_def value_ref_def upd_node_def

lemmas run_defs =
  do_transaction_def add_input_def modify_input_def add_transaction_input_def
  modify_transaction_input_def add_simple_input_def modify_simple_input_def
  var_node_add_input_def var_node_modify_input_def var_node_apply_input_def equals_def
  on_input_change_def on_node_pulse_def process_children_def push_def next_values_def
  fetch_next_def minimal_level_of_def partition_vec_def partition_loop.simps iter_swap_def
  tick_def var_node_tick_def signal_op_node_tick_def flatten_node_tick_def
  signal_observer_node_tick_def queue_observer_for_detach_def on_dynamic_node_attach_def
  on_dynamic_node_detach_def on_node_detach_def invalidate_successors_def
  detach_queued_observers_def unregister_self_def unregister_observer_def detach_observer_def
  detach_def Let_def eval_nat_numeral

lemma example_graph_nodes:
  "nodes example_graph 0 = \<lparr>level = 0, new_level = 0, queued = False, successors = [1],
      m_observers = [], m_value = Val 1,
      kind = Var_node \<lparr>m_new_value = Val 1, m_is_input_added = False, m_is_input_modified = False\<rparr>\<rparr>"
  "nodes example_graph (Suc 0) = \<lparr>level = 1, new_level = 0, queued = False, successors = [2],
      m_observers = [2], m_value = Val 2, kind = Signal_op_node (Function_op incr [Dep_node 0])\<rparr>"
  "level (nodes example_graph 2) = 2"
  "successors (nodes example_graph 2) = []"
  "next_node example_graph = 3"
  "m_scheduled_nodes example_graph = \<lparr>m_next_data = [], m_queue_data = []\<rparr>"
  "m_transaction_level example_graph = 0"
  "m_changed_inputs example_graph = []"
  "m_detached_observers example_graph = []"
  "tick_log example_graph = []"
  by (simp_all add: example_graph_def construct_defs incr_def)

lemma flatten_graph_nodes:
  "kind (nodes flatten_graph 4) = Flatten_node 3 0"
  "successors (nodes flatten_graph 0) = [4]"
  "successors (nodes flatten_graph 2) = []"
  "level (nodes flatten_graph 2) = 1"
  "level (nodes flatten_graph 4) = 1"
  "m_queue_data (m_scheduled_nodes flatten_graph) = []"
  by (simp_all add: flatten_graph_def flatten_calls_def construct_defs incr_def eval_nat_numeral)

lemma rewired_graph_run:
  "run_calls 3 (flatten_calls @ [Set_value 3 (Sig (Some 2))]) empty_graph = Inr rewired_graph"
proof -
  have "case run_calls 3 (flatten_calls @ [Set_value 3 (Sig (Some 2))]) empty_graph of
          Inr g \<Rightarrow> True
        | Inl e \<Rightarrow> False"
    by (simp add: flatten_calls_def construct_defs run_defs incr_def)
  then show ?thesis by (auto simp: rewired_graph_def split: sum.splits)
qed

lemma rewired_graph_nodes:
  "successors (nodes rewired_graph 4) = [5]"
  "level (nodes rewired_graph 4) = 2"
  "level (nodes rewired_graph 5) = 2"
  "new_level (nodes rewired_graph 5) = 3"
  "m_queue_data (m_scheduled_nodes rewired_graph) = []"
  "tick_log rewired_graph = [4, 4]"
  by (simp_all add: rewired_graph_def flatten_calls_def construct_defs run_defs incr_def)

lemma example_detached_run:
  "detach example_observer example_graph = Inr example_detached"
proof -
  have "case detach example_observer example_graph of Inr g \<Rightarrow> True | Inl e \<Rightarrow> False"
    by (simp add: example_observer_def example_graph_def construct_defs run_defs incr_def)
  then show ?thesis by (auto simp: example_detached_def split: sum.splits)
qed

subsection \<open>The var node: commit and staging\<close>



text \<open>
  C8: staging a set stores the new value as the staged one, sets the pending-set flag
  and clears the pending-modify flag, and leaves the live value alone. Staging a modify
  with no set pending applies the function to the live value and sets the
  pending-modify flag; with a set pending it applies the function to the staged value
  and changes nothing else. A set followed by a modify is therefore committed through
  the comparison: \<^verbatim>\<open>apply_input\<close> reports a change exactly when the modified staged value
  differs from the live one.
\<close>

theorem var_node_staging:
  assumes "kind (nodes g r) = Var_node v"
  shows "var_node_add_input r x g =
           Inr (upd_node r (\<lambda>n. n\<lparr>kind := Var_node \<lparr>m_new_value = x, m_is_input_added = True,
                                                     m_is_input_modified = False\<rparr>\<rparr>) g) \<and>
         (\<not> m_is_input_added v \<longrightarrow>
            var_node_modify_input r f g =
              Inr (upd_node r (\<lambda>n. n\<lparr>m_value := f (m_value (nodes g r)),
                                     kind := Var_node (v\<lparr>m_is_input_modified := True\<rparr>)\<rparr>) g)) \<and>
         (m_is_input_added v \<longrightarrow>
            var_node_modify_input r f g =
              Inr (upd_node r (\<lambda>n. n\<lparr>kind := Var_node (v\<lparr>m_new_value := f (m_new_value v)\<rparr>)\<rparr>) g)) \<and>
         (\<exists>g1 g2 g3.
            var_node_add_input r x g = Inr g1 \<and> var_node_modify_input r f g1 = Inr g2 \<and>
            var_node_apply_input r g2 = Inr (m_value (nodes g r) \<noteq> f x, g3) \<and>
            m_value (nodes g2 r) = m_value (nodes g r) \<and> m_value (nodes g3 r) = f x)"
proof -
  have a: "var_node_add_input r x g =
           Inr (upd_node r (\<lambda>n. n\<lparr>kind := Var_node \<lparr>m_new_value = x, m_is_input_added = True,
                                                     m_is_input_modified = False\<rparr>\<rparr>) g)"
    using assms by (simp add: var_node_add_input_def var_members_all)
  have b: "\<not> m_is_input_added v \<Longrightarrow>
            var_node_modify_input r f g =
              Inr (upd_node r (\<lambda>n. n\<lparr>m_value := f (m_value (nodes g r)),
                                     kind := Var_node (v\<lparr>m_is_input_modified := True\<rparr>)\<rparr>) g)"
    using assms by (simp add: var_node_modify_input_def upd_node_def)
  have c: "m_is_input_added v \<Longrightarrow>
            var_node_modify_input r f g =
              Inr (upd_node r (\<lambda>n. n\<lparr>kind := Var_node (v\<lparr>m_new_value := f (m_new_value v)\<rparr>)\<rparr>) g)"
    using assms by (simp add: var_node_modify_input_def)
  let ?g1 = "upd_node r (\<lambda>n. n\<lparr>kind := Var_node \<lparr>m_new_value = x, m_is_input_added = True,
                                                     m_is_input_modified = False\<rparr>\<rparr>) g"
  let ?g2 = "upd_node r (\<lambda>n. n\<lparr>kind := Var_node \<lparr>m_new_value = f x, m_is_input_added = True,
                                                     m_is_input_modified = False\<rparr>\<rparr>) ?g1"
  have m: "var_node_modify_input r f ?g1 = Inr ?g2"
    by (simp add: var_node_modify_input_def)
  have "\<exists>g3. var_node_apply_input r ?g2 = Inr (m_value (nodes g r) \<noteq> f x, g3) \<and> m_value (nodes g3 r) = f x"
    by (simp add: var_node_apply_input_def equals_def Let_def on_input_change_def process_children_node)
  then have d: "\<exists>g1 g2 g3.
            var_node_add_input r x g = Inr g1 \<and> var_node_modify_input r f g1 = Inr g2 \<and>
            var_node_apply_input r g2 = Inr (m_value (nodes g r) \<noteq> f x, g3) \<and>
            m_value (nodes g2 r) = m_value (nodes g r) \<and> m_value (nodes g3 r) = f x"
    using a m by auto
  show ?thesis using a b c d by blast
qed

theorem var_node_staging_witness:
  "kind (nodes (snd (make_var (Val (1::int)) empty_graph)) 0) =
     Var_node \<lparr>m_new_value = Val 1, m_is_input_added = False, m_is_input_modified = False\<rparr> \<and>
   (case var_node_modify_input 0 (\<lambda>v. Val 5) (snd (make_var (Val (1::int)) empty_graph)) of
      Inr g \<Rightarrow> m_value (nodes g 0) = Val 5
    | Inl e \<Rightarrow> False) \<and>
   (case var_node_modify_input 0 (\<lambda>v. Val 5) staged_var_graph of
      Inr g \<Rightarrow> m_value (nodes g 0) = Val 1 \<and>
        kind (nodes g 0) =
          Var_node \<lparr>m_new_value = Val 5, m_is_input_added = True, m_is_input_modified = False\<rparr>
    | Inl e \<Rightarrow> False)"
proof -
  let ?g = "snd (make_var (Val (1::int)) empty_graph)"
  let ?v = "\<lparr>m_new_value = Val (1::int), m_is_input_added = False, m_is_input_modified = False\<rparr>"
  let ?w = "\<lparr>m_new_value = Val (2::int), m_is_input_added = True, m_is_input_modified = False\<rparr>"
  have k: "kind (nodes ?g 0) = Var_node ?v"
    by (simp add: make_var_def new_node_def empty_graph_def)
  have k2: "kind (nodes staged_var_graph 0) = Var_node ?w"
    and v2: "m_value (nodes staged_var_graph 0) = Val 1"
    by (simp_all add: staged_var_graph_def make_var_def new_node_def empty_graph_def)
  from var_node_staging [OF k, of "Val 7" "\<lambda>v. Val 5"] k
  have a: "case var_node_modify_input 0 (\<lambda>v. Val 5) ?g of
      Inr g \<Rightarrow> m_value (nodes g 0) = Val 5
    | Inl e \<Rightarrow> False"
    by simp
  from var_node_staging [OF k2, of "Val 7" "\<lambda>v. Val 5"] v2
  have b: "case var_node_modify_input 0 (\<lambda>v. Val 5) staged_var_graph of
      Inr g \<Rightarrow> m_value (nodes g 0) = Val 1 \<and>
        kind (nodes g 0) =
          Var_node \<lparr>m_new_value = Val 5, m_is_input_added = True, m_is_input_modified = False\<rparr>
    | Inl e \<Rightarrow> False"
    by simp
  show ?thesis using k a b by simp
qed

subsection \<open>The tick of a computed node\<close>

text \<open>
  C2: the tick of a computed node evaluates the operation on the current values of its
  dependencies. If the result differs from the stored value, it becomes the stored
  value and the graph is told of the pulse, after which every successor is queued and
  each one that was not queued before has an entry in the queue at its level. If the
  result equals the stored value, the tick changes neither a node nor the queue.
\<close>

theorem signal_op_node_tick_cases:
  assumes "kind (nodes g self) = Signal_op_node m_op"
  shows "(m_value (nodes g self) \<noteq> evaluate (value_ref g) m_op \<longrightarrow>
            (\<exists>g'. tick self g = Inr g' \<and>
               g' = on_node_pulse self
                      (upd_node self (\<lambda>n. n\<lparr>m_value := evaluate (value_ref g) m_op\<rparr>)
                         (g\<lparr>tick_log := tick_log g @ [self]\<rparr>)) \<and>
               m_value (nodes g' self) = evaluate (value_ref g) m_op \<and>
               (\<forall>s\<in>set (successors (nodes g self)).
                  queued (nodes g' s) \<and>
                  (\<not> queued (nodes g s) \<longrightarrow>
                     (s, level (nodes g s)) \<in> set (m_queue_data (m_scheduled_nodes g')))))) \<and>
         (m_value (nodes g self) = evaluate (value_ref g) m_op \<longrightarrow>
            (\<exists>g'. tick self g = Inr g' \<and> nodes g' = nodes g \<and>
               m_scheduled_nodes g' = m_scheduled_nodes g))"
proof -
  let ?new = "evaluate (value_ref g) m_op"
  let ?g0 = "g\<lparr>tick_log := tick_log g @ [self]\<rparr>"
  let ?g1 = "upd_node self (\<lambda>n. n\<lparr>m_value := ?new\<rparr>) ?g0"
  have vr: "value_ref ?g0 = value_ref g"
    by (rule ext) (simp add: value_ref_def)
  have t: "tick self g =
           (if m_value (nodes g self) \<noteq> ?new then Inr (on_node_pulse self ?g1) else Inr ?g0)"
    using assms by (simp add: tick_def signal_op_node_tick_def Let_def equals_def vr)
  have v: "m_value (nodes (on_node_pulse self ?g1) self) = ?new"
    by (simp add: on_node_pulse_def process_children_node)
  have q: "\<forall>s\<in>set (successors (nodes g self)).
             queued (nodes (on_node_pulse self ?g1) s) \<and>
             (\<not> queued (nodes g s) \<longrightarrow>
                (s, level (nodes g s)) \<in> set (m_queue_data (m_scheduled_nodes (on_node_pulse self ?g1))))"
    by (auto simp: on_node_pulse_def process_children_node process_children_queue)
  show ?thesis using t v q by simp
qed

theorem signal_op_node_tick_cases_witness:
  "kind (nodes (upd_node 0 (\<lambda>n. n\<lparr>m_value := Val 5\<rparr>) example_graph) 1) =
     Signal_op_node (Function_op incr [Dep_node 0]) \<and>
   (case tick 1 (upd_node 0 (\<lambda>n. n\<lparr>m_value := Val 5\<rparr>) example_graph) of
      Inr g \<Rightarrow> m_value (nodes g 1) = Val 6 \<and> queued (nodes g 2)
    | Inl e \<Rightarrow> False) \<and>
   (case tick 1 example_graph of
      Inr g \<Rightarrow> nodes g = nodes example_graph
    | Inl e \<Rightarrow> False)"
proof -
  let ?g = "upd_node 0 (\<lambda>n. n\<lparr>m_value := Val 5\<rparr>) example_graph"
  let ?op = "Function_op incr [Dep_node 0]"
  have k: "kind (nodes ?g 1) = Signal_op_node ?op"
    by (simp add: example_graph_nodes)
  have k0: "kind (nodes example_graph 1) = Signal_op_node ?op"
    by (simp add: example_graph_nodes)
  have e: "evaluate (value_ref ?g) ?op = Val 6" "m_value (nodes ?g 1) = Val 2"
    "successors (nodes ?g 1) = [2]"
    by (simp_all add: example_graph_nodes value_ref_def incr_def)
  have e0: "evaluate (value_ref example_graph) ?op = Val 2" "m_value (nodes example_graph 1) = Val 2"
    by (simp_all add: example_graph_nodes value_ref_def incr_def)
  from signal_op_node_tick_cases [OF k] signal_op_node_tick_cases [OF k0] e e0 k
  show ?thesis by auto
qed

subsection \<open>The order of the levels\<close>

lemma graph_inv_fields [simp]:
  "graph_inv (g\<lparr>m_transaction_level := l\<rparr>) = graph_inv g"
  "graph_inv (g\<lparr>m_changed_inputs := c\<rparr>) = graph_inv g"
  "graph_inv (g\<lparr>m_detached_observers := d\<rparr>) = graph_inv g"
  "graph_inv (g\<lparr>tick_log := t\<rparr>) = graph_inv g"
  by (simp_all add: graph_inv_def edges_ok_def queue_ok_def)

lemma graph_inv_upd_node:
  assumes "\<And>x. level (f x) = level x \<and> new_level (f x) = new_level x \<and> successors (f x) = successors x"
  shows "graph_inv (upd_node n f g) = graph_inv g"
proof -
  have a: "level (nodes (upd_node n f g) m) = level (nodes g m)"
    "new_level (nodes (upd_node n f g) m) = new_level (nodes g m)"
    "successors (nodes (upd_node n f g) m) = successors (nodes g m)" for m
    using assms by simp_all
  show ?thesis
    by (simp add: graph_inv_def edges_ok_def queue_ok_def a del: nodes_upd_node)
qed

lemma graph_inv_push:
  "graph_inv (g\<lparr>m_scheduled_nodes := push n l (m_scheduled_nodes g)\<rparr>) =
     (graph_inv g \<and> n < next_node g)"
  by (auto simp: graph_inv_def edges_ok_def queue_ok_def push_def)

lemma graph_inv_cong:
  assumes "graph_inv g" and "next_node g' = next_node g"
    and "\<And>m. level (nodes g' m) = level (nodes g m)"
    and "\<And>m. new_level (nodes g' m) = new_level (nodes g m)"
    and "\<And>m. set (successors (nodes g' m)) \<subseteq> set (successors (nodes g m))"
    and "set (m_queue_data (m_scheduled_nodes g')) \<subseteq>
         set (m_queue_data (m_scheduled_nodes g)) \<union> {e. fst e < next_node g}"
  shows "graph_inv g'"
proof -
  have "edges_ok g'"
    unfolding edges_ok_def assms(2,3,4)
  proof (intro allI impI)
    fix p s assume "s \<in> set (successors (nodes g' p))"
    then have "s \<in> set (successors (nodes g p))" using assms(5) by blast
    then show "s < next_node g \<and> level (nodes g p) < max (level (nodes g s)) (new_level (nodes g s))"
      using assms(1) by (simp add: graph_inv_def edges_ok_def)
  qed
  moreover have "queue_ok g'"
    using assms(1,6) unfolding graph_inv_def queue_ok_def assms(2) by blast
  ultimately show ?thesis by (simp add: graph_inv_def)
qed

lemma graph_inv_process_children:
  assumes "graph_inv g"
  shows "graph_inv (process_children n g)"
proof -
  have e: "edges_ok (process_children n g)"
    using assms by (simp add: graph_inv_def edges_ok_def process_children_node)
  have q: "queue_ok (process_children n g)"
    using assms
    by (auto simp: graph_inv_def edges_ok_def queue_ok_def process_children_queue)
  show ?thesis using e q by (simp add: graph_inv_def)
qed

lemma edges_ok_invalidated:
  assumes "edges_ok_except n g"
  shows "edges_ok (invalidated n g)"
  unfolding edges_ok_def
proof (intro allI impI)
  fix p s assume "s \<in> set (successors (nodes (invalidated n g) p))"
  then have m: "s \<in> set (successors (nodes g p))" by simp
  with assms have sc: "s < next_node g"
    and ok: "p \<noteq> n \<longrightarrow> level (nodes g p) < max (level (nodes g s)) (new_level (nodes g s))"
    by (auto simp: edges_ok_except_def)
  have "level (nodes g p) < max (level (nodes g s)) (new_level (nodes (invalidated n g) s))"
  proof (cases "p = n")
    case True
    then show ?thesis using m by (simp add: invalidated_new_level)
  next
    case False
    then show ?thesis using ok by (auto simp: invalidated_new_level)
  qed
  then show "s < next_node (invalidated n g) \<and>
             level (nodes (invalidated n g) p) <
             max (level (nodes (invalidated n g) s)) (new_level (nodes (invalidated n g) s))"
    using sc by simp
qed

lemma edges_ok_imp_except: "edges_ok g \<Longrightarrow> edges_ok_except n g"
  by (simp add: edges_ok_def edges_ok_except_def)

lemma queue_ok_invalidated [simp]: "queue_ok (invalidated n g) = queue_ok g"
  by (simp add: queue_ok_def)

lemma graph_inv_on_node_detach:
  assumes "graph_inv g" and "on_node_detach node parent g = Inr g'"
  shows "graph_inv g'"
proof -
  from assms(2) have g': "g' = upd_node parent (\<lambda>p. p\<lparr>successors := remove1 node (successors p)\<rparr>) g"
    by (auto simp: on_node_detach_def split: if_splits)
  have sub: "s \<in> set (successors (nodes g' p)) \<Longrightarrow> s \<in> set (successors (nodes g p))" for p s
    unfolding g' using set_remove1_subset [of node "successors (nodes g parent)"]
    by (auto split: if_splits)
  have same: "level (nodes g' m) = level (nodes g m)" "new_level (nodes g' m) = new_level (nodes g m)"
    "next_node g' = next_node g" "m_scheduled_nodes g' = m_scheduled_nodes g" for m
    unfolding g' by simp_all
  have "edges_ok g'"
    unfolding edges_ok_def same
  proof (intro allI impI)
    fix p s assume "s \<in> set (successors (nodes g' p))"
    then have "s \<in> set (successors (nodes g p))" by (rule sub)
    then show "s < next_node g \<and> level (nodes g p) < max (level (nodes g s)) (new_level (nodes g s))"
      using assms(1) by (simp add: graph_inv_def edges_ok_def)
  qed
  moreover have "queue_ok g'" using assms(1) by (simp add: graph_inv_def queue_ok_def same)
  ultimately show ?thesis by (simp add: graph_inv_def)
qed

text \<open>
  After an attachment alone, the edges out of the attached node can be out of order
  (its level has risen); every other edge is in order.
\<close>

lemma edges_ok_except_on_node_attach:
  assumes "edges_ok g" and "node < next_node g" and "on_node_attach node parent g = Inr g'"
  shows "edges_ok_except node g'"
proof -
  let ?g1 = "upd_node parent (\<lambda>p. p\<lparr>successors := successors p @ [node]\<rparr>) g"
  let ?l = "max (level (nodes g node)) (level (nodes g parent) + 1)"
  have l1: "level (nodes ?g1 node) = level (nodes g node)"
    "level (nodes ?g1 parent) = level (nodes g parent)" by simp_all
  have g': "g' = upd_node node (\<lambda>n. n\<lparr>level := ?l\<rparr>) ?g1"
  proof (cases "level (nodes g node) \<le> level (nodes g parent)")
    case True
    then have "?l = level (nodes g parent) + 1" by simp
    then show ?thesis using assms(3) True l1
      by (auto simp: on_node_attach_def Let_def simp del: nodes_upd_node split: if_splits)
  next
    case False
    then have m: "?l = level (nodes g node)" by simp
    have "upd_node node (\<lambda>n. n\<lparr>level := ?l\<rparr>) ?g1 = ?g1"
      unfolding m by (simp add: upd_node_def fun_eq_iff)
    then show ?thesis using assms(3) False l1
      by (auto simp: on_node_attach_def Let_def simp del: nodes_upd_node split: if_splits)
  qed
  show ?thesis
    unfolding edges_ok_except_def
  proof (intro allI impI)
    fix p s assume m: "s \<in> set (successors (nodes g' p))"
    have sc: "s < next_node g'"
      using m assms(1,2) unfolding g' by (auto simp: edges_ok_def split: if_splits)
    have "level (nodes g' p) < max (level (nodes g' s)) (new_level (nodes g' s))" if "p \<noteq> node"
    proof (cases "s \<in> set (successors (nodes g p))")
      case True
      then have "level (nodes g p) < max (level (nodes g s)) (new_level (nodes g s))"
        using assms(1) by (simp add: edges_ok_def)
      then show ?thesis using that unfolding g' by auto
    next
      case False
      then have "p = parent" "s = node" using m that unfolding g' by (auto split: if_splits)
      then show ?thesis using that unfolding g' by auto
    qed
    then show "s < next_node g' \<and>
               (p \<noteq> node \<longrightarrow> level (nodes g' p) < max (level (nodes g' s)) (new_level (nodes g' s)))"
      using sc by simp
  qed
qed

lemma next_node_on_node_attach:
  "on_node_attach node parent g = Inr g' \<Longrightarrow>
   next_node g' = next_node g \<and> m_scheduled_nodes g' = m_scheduled_nodes g"
  by (auto simp: on_node_attach_def Let_def split: if_splits)

lemma queue_ok_on_node_attach:
  "on_node_attach node parent g = Inr g' \<Longrightarrow> queue_ok g' = queue_ok g"
  using next_node_on_node_attach [of node parent g g'] by (simp add: queue_ok_def)

lemma graph_inv_on_dynamic_node_attach:
  assumes "graph_inv g" and "node < next_node g" and "on_dynamic_node_attach node parent g = Inr g'"
  shows "graph_inv g'"
proof -
  from assms(3) obtain g1 g2 where a: "on_node_attach node parent g = Inr g1"
    and i: "invalidate_successors node g1 = Inr g2"
    and g': "g' = (upd_node node (\<lambda>n. n\<lparr>queued := True\<rparr>) g2)
                   \<lparr>m_scheduled_nodes := push node (level (nodes (upd_node node (\<lambda>n. n\<lparr>queued := True\<rparr>) g2) node))
                       (m_scheduled_nodes (upd_node node (\<lambda>n. n\<lparr>queued := True\<rparr>) g2))\<rparr>"
    by (auto simp: on_dynamic_node_attach_def bind_result_Inr Let_def)
  have "edges_ok g" using assms(1) by (simp add: graph_inv_def)
  then have e1: "edges_ok_except node g1"
    using assms(2) a by (rule edges_ok_except_on_node_attach)
  have g2: "g2 = invalidated node g1" using i by (rule invalidate_successors_Inr)
  have "graph_inv g2"
    using e1 assms(1) queue_ok_on_node_attach [OF a]
    by (simp add: graph_inv_def g2 edges_ok_invalidated)
  moreover have "next_node g2 = next_node g"
    using next_node_on_node_attach [OF a] by (simp add: g2)
  ultimately show ?thesis using assms(2)
    unfolding g' by (elim graph_inv_cong) (auto simp: push_def)
qed

lemma graph_inv_tick:
  assumes "graph_inv g" and "n < next_node g" and "tick n g = Inr g'"
  shows "graph_inv g'"
proof (cases "kind (nodes g n)")
  case (Var_node v)
  then show ?thesis using assms(3) by (simp add: tick_def var_node_tick_def)
next
  case (Signal_op_node m_op)
  let ?g0 = "g\<lparr>tick_log := tick_log g @ [n]\<rparr>"
  have "graph_inv (process_children n (upd_node n (\<lambda>x. x\<lparr>m_value := v\<rparr>) ?g0))" for v
    using assms(1) by (intro graph_inv_process_children) (simp add: graph_inv_upd_node)
  then show ?thesis using Signal_op_node assms(1,3)
    by (auto simp: tick_def signal_op_node_tick_def Let_def on_node_pulse_def split: if_splits)
next
  case (Flatten_node m_outer m_inner)
  let ?g0 = "g\<lparr>tick_log := tick_log g @ [n]\<rparr>"
  have p: "graph_inv (process_children n (upd_node n (\<lambda>x. x\<lparr>m_value := v\<rparr>) ?g0))" for v
    using assms(1) by (intro graph_inv_process_children) (simp add: graph_inv_upd_node)
  have r: "graph_inv g'"
    if d: "on_dynamic_node_detach n m_inner
             (upd_node n (\<lambda>x. x\<lparr>kind := Flatten_node m_outer ni\<rparr>) ?g0) = Inr g1"
      and a: "on_dynamic_node_attach n ni g1 = Inr g'" for ni g1
  proof -
    have "graph_inv (upd_node n (\<lambda>x. x\<lparr>kind := Flatten_node m_outer ni\<rparr>) ?g0)"
      using assms(1) by (simp add: graph_inv_upd_node)
    then have i1: "graph_inv g1"
      using d unfolding on_dynamic_node_detach_def by (rule graph_inv_on_node_detach)
    have "next_node g1 = next_node g"
      using on_node_detach_control [OF d [unfolded on_dynamic_node_detach_def]]
      by (simp add: same_control_def)
    then show ?thesis using i1 assms(2) a by (intro graph_inv_on_dynamic_node_attach [OF i1 _ a]) simp
  qed
  show ?thesis using Flatten_node assms(1,3) p r
    by (auto simp: tick_def flatten_node_tick_def Let_def on_node_pulse_def bind_result_Inr
        split: if_splits val.splits option.splits)
next
  case (Signal_observer_node m_subject m_func)
  then show ?thesis using assms(1,3)
    by (auto simp: tick_def signal_observer_node_tick_def Let_def queue_observer_for_detach_def
        split: if_splits)
qed

lemma graph_inv_propagate_wave:
  assumes "graph_inv g" and "\<forall>n\<in>set ns. n < next_node g" and "propagate_wave ns g = Inr g'"
  shows "graph_inv g'"
  using assms
proof (induction ns arbitrary: g)
  case Nil
  then show ?case by simp
next
  case (Cons n ns)
  have nn: "n < next_node g" using Cons.prems(2) by simp
  show ?case
  proof (cases "level (nodes g n) < new_level (nodes g n)")
    case True
    let ?g1 = "upd_node n (\<lambda>x. x\<lparr>level := new_level x\<rparr>) g"
    from True Cons.prems(3) obtain g2 where
      a: "invalidate_successors n ?g1 = Inr g2"
      and b: "propagate_wave ns
                (g2\<lparr>m_scheduled_nodes := push n (level (nodes g2 n)) (m_scheduled_nodes g2)\<rparr>) = Inr g'"
      by (auto simp: bind_result_Inr)
    have g2: "g2 = invalidated n ?g1" using a by (rule invalidate_successors_Inr)
    have "edges_ok_except n ?g1"
      unfolding edges_ok_except_def
    proof (intro allI impI)
      fix p s assume m: "s \<in> set (successors (nodes ?g1 p))"
      then have m': "s \<in> set (successors (nodes g p))" by (auto split: if_splits)
      then have e: "s < next_node g"
        "level (nodes g p) < max (level (nodes g s)) (new_level (nodes g s))"
        using Cons.prems(1) by (simp_all add: graph_inv_def edges_ok_def)
      have "level (nodes ?g1 p) < max (level (nodes ?g1 s)) (new_level (nodes ?g1 s))" if "p \<noteq> n"
        using that e(2) True by auto
      then show "s < next_node ?g1 \<and>
                 (p \<noteq> n \<longrightarrow> level (nodes ?g1 p) < max (level (nodes ?g1 s)) (new_level (nodes ?g1 s)))"
        using e(1) by simp
    qed
    then have "edges_ok g2" unfolding g2 by (rule edges_ok_invalidated)
    moreover have "queue_ok g2" using Cons.prems(1) by (simp add: g2 graph_inv_def queue_ok_def)
    ultimately have i2: "graph_inv g2" by (simp add: graph_inv_def)
    have n2: "next_node g2 = next_node g" by (simp add: g2)
    let ?g3 = "g2\<lparr>m_scheduled_nodes := push n (level (nodes g2 n)) (m_scheduled_nodes g2)\<rparr>"
    have i3: "graph_inv ?g3" using i2 nn n2 by (simp add: graph_inv_push)
    have "\<forall>n\<in>set ns. n < next_node ?g3" using Cons.prems(2) n2 by simp
    from Cons.IH [OF i3 this b] show ?thesis .
  next
    case False
    let ?g1 = "upd_node n (\<lambda>x. x\<lparr>queued := False\<rparr>) g"
    from False Cons.prems(3) obtain g2 where
      a: "tick n ?g1 = Inr g2" and b: "propagate_wave ns g2 = Inr g'"
      by (auto simp: bind_result_Inr)
    have "graph_inv ?g1" using Cons.prems(1) by (simp add: graph_inv_upd_node)
    then have i2: "graph_inv g2" using nn a by (intro graph_inv_tick [OF _ _ a]) simp_all
    have n2: "next_node g2 = next_node g" using tick_control [OF a] by (simp add: same_control_def)
    have "\<forall>n\<in>set ns. n < next_node g2" using Cons.prems(2) n2 by simp
    from Cons.IH [OF i2 this b] show ?thesis .
  qed
qed

lemma fetch_next_sets:
  assumes "fetch_next q = (b, q')"
  shows "set (m_queue_data q') \<subseteq> set (m_queue_data q)"
    and "set (m_next_data q') \<subseteq> fst ` set (m_queue_data q)"
proof -
  let ?p = "\<lambda>e. snd e \<noteq> minimal_level_of (m_queue_data q)"
  obtain es r where pv: "partition_vec ?p (m_queue_data q) = (es, r)"
    by (cases "partition_vec ?p (m_queue_data q)")
  have q': "q' = \<lparr>m_next_data = map fst (drop r es), m_queue_data = take r es\<rparr>"
    using assms pv by (simp add: fetch_next_def Let_def)
  have "set_mset (mset (take r es)) \<subseteq> set_mset (mset (m_queue_data q))"
    unfolding partition_vec_mset(1) [OF pv] by auto
  then show "set (m_queue_data q') \<subseteq> set (m_queue_data q)" by (simp add: q')
  have "set_mset (mset (drop r es)) \<subseteq> set_mset (mset (m_queue_data q))"
    unfolding partition_vec_mset(2) [OF pv] by auto
  then show "set (m_next_data q') \<subseteq> fst ` set (m_queue_data q)" by (auto simp: q')
qed

lemma graph_inv_propagate:
  assumes "graph_inv g" and "propagate fuel g = Inr g'"
  shows "graph_inv g'"
  using assms
proof (induction fuel arbitrary: g)
  case 0
  then show ?case by simp
next
  case (Suc fuel)
  obtain b q where f: "fetch_next (m_scheduled_nodes g) = (b, q)"
    by (cases "fetch_next (m_scheduled_nodes g)")
  let ?g1 = "g\<lparr>m_scheduled_nodes := q\<rparr>"
  have i1: "graph_inv ?g1"
    using Suc.prems(1) fetch_next_sets(1) [OF f] by (elim graph_inv_cong) auto
  have w: "\<forall>n\<in>set (next_values q). n < next_node ?g1"
    using Suc.prems(1) fetch_next_sets(2) [OF f]
    by (auto simp: next_values_def graph_inv_def queue_ok_def)
  show ?case
  proof (cases b)
    case False
    then show ?thesis using Suc.prems(2) f i1 by simp
  next
    case True
    with Suc.prems(2) f obtain g2 where
      a: "propagate_wave (next_values q) ?g1 = Inr g2" and r: "propagate fuel g2 = Inr g'"
      by (auto simp: bind_result_Inr)
    from graph_inv_propagate_wave [OF i1 w a] have "graph_inv g2" .
    from Suc.IH [OF this r] show ?thesis .
  qed
qed

lemma graph_inv_var_node_apply_input:
  assumes "graph_inv g" and "var_node_apply_input p g = Inr (c, g')"
  shows "graph_inv g'"
proof -
  have "graph_inv (process_children p (upd_node p f (upd_node p h g)))"
    if "\<And>x. level (f x) = level x \<and> new_level (f x) = new_level x \<and> successors (f x) = successors x"
      and "\<And>x. level (h x) = level x \<and> new_level (h x) = new_level x \<and> successors (h x) = successors x"
    for f h :: "'a node \<Rightarrow> 'a node"
    using assms(1) that by (intro graph_inv_process_children) (simp add: graph_inv_upd_node)
  note a = this [of "\<lambda>n. n\<lparr>m_value := v\<rparr>" "\<lambda>n. n\<lparr>kind := k\<rparr>" for v k, simplified]
  have b: "graph_inv (process_children p (upd_node p (\<lambda>n. n\<lparr>kind := k\<rparr>) g))" for k
    using assms(1) by (intro graph_inv_process_children) (simp add: graph_inv_upd_node)
  show ?thesis using assms a b
    by (auto simp: var_node_apply_input_def Let_def on_input_change_def graph_inv_upd_node
        split: node_kind.splits if_splits)
qed

lemma graph_inv_apply_changed_inputs:
  assumes "graph_inv g" and "apply_changed_inputs ps b g = Inr (c, g')"
  shows "graph_inv g'"
  using assms
proof (induction ps arbitrary: b g)
  case Nil
  then show ?case by simp
next
  case (Cons p ps)
  from Cons.prems(2) obtain c1 g1 where
    a: "var_node_apply_input p g = Inr (c1, g1)"
    and r: "apply_changed_inputs ps (if c1 then True else b) g1 = Inr (c, g')"
    by (auto simp: bind_result_Inr split: prod.splits)
  from Cons.IH [OF graph_inv_var_node_apply_input [OF Cons.prems(1) a] r] show ?case .
qed

lemma graph_inv_detach_observer:
  assumes "graph_inv g" and "detach_observer n g = Inr g'"
  shows "graph_inv g'"
  using assms
  by (auto simp: detach_observer_def bind_result_Inr graph_inv_upd_node
      dest: graph_inv_on_node_detach split: node_kind.splits option.splits)

lemma graph_inv_unregister_observer:
  assumes "graph_inv g" and "unregister_observer s n g = Inr g'"
  shows "graph_inv g'"
  using assms
  by (auto simp: unregister_observer_def bind_result_Inr graph_inv_upd_node
      dest: graph_inv_detach_observer split: if_splits)

lemma graph_inv_unregister_self:
  assumes "graph_inv g" and "unregister_self n g = Inr g'"
  shows "graph_inv g'"
  using assms
  by (auto simp: unregister_self_def dest: graph_inv_unregister_observer
      split: node_kind.splits option.splits)

lemma graph_inv_detach_queued_observers:
  assumes "graph_inv g" and "detach_queued_observers g = Inr g'"
  shows "graph_inv g'"
proof -
  from assms(2) obtain g1 where f: "for_each unregister_self (m_detached_observers g) g = Inr g1"
    and e: "g' = g1\<lparr>m_detached_observers := []\<rparr>"
    by (auto simp: detach_queued_observers_def bind_result_Inr)
  have "graph_inv g1"
    using f assms(1) by (rule for_each_preserves) (rule graph_inv_unregister_self)
  then show ?thesis by (simp add: e)
qed

lemma graph_inv_detach:
  assumes "graph_inv g" and "detach h g = Inr g'"
  shows "graph_inv g'"
  using assms
  by (auto simp: detach_def dest: graph_inv_unregister_observer split: option.splits)

lemma graph_inv_var_node_add_input:
  "graph_inv g \<Longrightarrow> var_node_add_input r v g = Inr g' \<Longrightarrow> graph_inv g'"
  by (auto simp: var_node_add_input_def graph_inv_upd_node split: node_kind.splits)

lemma graph_inv_var_node_modify_input:
  "graph_inv g \<Longrightarrow> var_node_modify_input r f g = Inr g' \<Longrightarrow> graph_inv g'"
  by (auto simp: var_node_modify_input_def graph_inv_upd_node split: node_kind.splits if_splits)

lemma graph_inv_finish:
  assumes "graph_inv g"
    and "bind_result (if c then propagate fuel g else Inr g) detach_queued_observers = Inr g'"
  shows "graph_inv g'"
proof -
  from assms(2) obtain g1 where p: "(if c then propagate fuel g else Inr g) = Inr g1"
    and d: "detach_queued_observers g1 = Inr g'"
    by (auto simp: bind_result_Inr)
  have "graph_inv g1" using p assms(1) graph_inv_propagate by (auto split: if_splits)
  then show ?thesis using d by (rule graph_inv_detach_queued_observers)
qed

lemma graph_inv_add_input:
  assumes "graph_inv g" and "add_input fuel r v g = Inr g'"
  shows "graph_inv g'"
proof (cases "m_transaction_level g > 0")
  case True
  then show ?thesis using assms
    by (auto simp: add_input_def add_transaction_input_def bind_result_Inr
        dest: graph_inv_var_node_add_input)
next
  case False
  with assms(2) obtain g1 c g2 where a: "var_node_add_input r v g = Inr g1"
    and b: "var_node_apply_input r g1 = Inr (c, g2)"
    and f: "bind_result (if c then propagate fuel g2 else Inr g2) detach_queued_observers = Inr g'"
    by (auto simp: add_input_def add_simple_input_def bind_result_Inr split: prod.splits)
  have "graph_inv g1" using assms(1) a by (rule graph_inv_var_node_add_input)
  then have "graph_inv g2" using b by (rule graph_inv_var_node_apply_input)
  then show ?thesis using f by (rule graph_inv_finish)
qed

lemma graph_inv_modify_input:
  assumes "graph_inv g" and "modify_input fuel r func g = Inr g'"
  shows "graph_inv g'"
proof (cases "m_transaction_level g > 0")
  case True
  then show ?thesis using assms
    by (auto simp: modify_input_def modify_transaction_input_def bind_result_Inr
        dest: graph_inv_var_node_modify_input)
next
  case False
  with assms(2) obtain g1 c g2 where a: "var_node_modify_input r func g = Inr g1"
    and b: "var_node_apply_input r g1 = Inr (c, g2)"
    and f: "bind_result (if c then propagate fuel g2 else Inr g2) detach_queued_observers = Inr g'"
    by (auto simp: modify_input_def modify_simple_input_def bind_result_Inr split: prod.splits)
  have "graph_inv g1" using assms(1) a by (rule graph_inv_var_node_modify_input)
  then have "graph_inv g2" using b by (rule graph_inv_var_node_apply_input)
  then show ?thesis using f by (rule graph_inv_finish)
qed

lemma graph_inv_do_transaction:
  assumes "graph_inv g"
    and "\<And>g1 g2. graph_inv g1 \<Longrightarrow> func g1 = Inr g2 \<Longrightarrow> graph_inv g2"
    and "do_transaction fuel func g = Inr g'"
  shows "graph_inv g'"
proof -
  from assms(3) obtain g1 where
    b: "func (g\<lparr>m_transaction_level := m_transaction_level g + 1\<rparr>) = Inr g1"
    and r: "(let g2 = g1\<lparr>m_transaction_level := m_transaction_level g1 - 1\<rparr> in
             if m_transaction_level g2 \<noteq> 0 then Inr g2
             else
               bind_result (apply_changed_inputs (m_changed_inputs g2) False g2)
                 (\<lambda>(should_propagate, g3).
                    let g4 = g3\<lparr>m_changed_inputs := []\<rparr> in
                    bind_result (if should_propagate then propagate fuel g4 else Inr g4)
                      detach_queued_observers)) = Inr g'"
    by (auto simp: do_transaction_def bind_result_Inr split: if_splits)
  have i1: "graph_inv g1" using assms(1) b by (intro assms(2) [OF _ b]) simp
  let ?g2 = "g1\<lparr>m_transaction_level := m_transaction_level g1 - 1\<rparr>"
  have i2: "graph_inv ?g2" using i1 by simp
  show ?thesis
  proof (cases "m_transaction_level ?g2 \<noteq> 0")
    case True
    then show ?thesis using r i2 by (simp add: Let_def)
  next
    case False
    with r obtain c g3 where
      a: "apply_changed_inputs (m_changed_inputs ?g2) False ?g2 = Inr (c, g3)"
      and f: "bind_result (if c then propagate fuel (g3\<lparr>m_changed_inputs := []\<rparr>)
                           else Inr (g3\<lparr>m_changed_inputs := []\<rparr>))
                detach_queued_observers = Inr g'"
      by (auto simp: Let_def bind_result_Inr split: prod.splits)
    have "graph_inv g3" using i2 a by (rule graph_inv_apply_changed_inputs)
    then have "graph_inv (g3\<lparr>m_changed_inputs := []\<rparr>)" by simp
    then show ?thesis using f by (rule graph_inv_finish)
  qed
qed

text \<open>A new node has no successor, and no edge leads to it.\<close>

lemma graph_inv_new_node:
  assumes "graph_inv g" and "new_node v k g = (self, g1)"
  shows "graph_inv g1 \<and> self = next_node g \<and> next_node g1 = Suc self \<and>
         successors (nodes g1 self) = []"
proof -
  have s: "self = next_node g"
    and g1: "g1 = g\<lparr>nodes := (nodes g)(next_node g :=
           \<lparr>level = 0, new_level = 0, queued = False, successors = [], m_observers = [],
            m_value = v, kind = k\<rparr>), next_node := Suc (next_node g)\<rparr>"
    using assms(2) by (auto simp: new_node_def)
  have e: "edges_ok g1"
    unfolding edges_ok_def
  proof (intro allI impI)
    fix p s assume m: "s \<in> set (successors (nodes g1 p))"
    then have pn: "p \<noteq> next_node g" and m': "s \<in> set (successors (nodes g p))"
      unfolding g1 by (auto split: if_splits)
    then have "s < next_node g"
      and "level (nodes g p) < max (level (nodes g s)) (new_level (nodes g s))"
      using assms(1) by (simp_all add: graph_inv_def edges_ok_def)
    then show "s < next_node g1 \<and>
               level (nodes g1 p) < max (level (nodes g1 s)) (new_level (nodes g1 s))"
      using pn unfolding g1 by auto
  qed
  have q: "queue_ok g1"
    using assms(1) unfolding g1 graph_inv_def queue_ok_def by auto
  show ?thesis using e q s by (simp add: graph_inv_def g1)
qed

lemma graph_inv_attach_fresh:
  assumes "graph_inv g" and "successors (nodes g node) = []" and "node \<noteq> parent"
    and "node < next_node g" and "on_node_attach node parent g = Inr g'"
  shows "graph_inv g' \<and> successors (nodes g' node) = [] \<and> next_node g' = next_node g"
proof -
  have "edges_ok g" using assms(1) by (simp add: graph_inv_def)
  then have x: "edges_ok_except node g'"
    using assms(4,5) by (rule edges_ok_except_on_node_attach)
  have s: "successors (nodes g' node) = []"
    using assms(2,3,5) by (auto simp: on_node_attach_def Let_def split: if_splits)
  have "edges_ok g'"
    using x s unfolding edges_ok_def edges_ok_except_def by (metis empty_iff empty_set)
  moreover have "queue_ok g'"
    using assms(1) queue_ok_on_node_attach [OF assms(5)] by (simp add: graph_inv_def)
  ultimately show ?thesis
    using s next_node_on_node_attach [OF assms(5)] by (simp add: graph_inv_def)
qed

lemma graph_inv_attach:
  assumes "graph_inv g" and "successors (nodes g node) = []" and "node < next_node g"
    and "\<forall>d\<in>set (leaves m_op). d \<noteq> node" and "attach m_op node g = Inr g'"
  shows "graph_inv g'"
proof -
  let ?P = "\<lambda>g1. graph_inv g1 \<and> successors (nodes g1 node) = [] \<and> next_node g1 = next_node g"
  have "?P g'"
    using assms(5) unfolding attach_def
  proof (rule for_each_preserves)
    show "?P g" using assms(1,2) by simp
  next
    fix x t t' assume "x \<in> set (leaves m_op)" "?P t" "on_node_attach node x t = Inr t'"
    then show "?P t'"
      using graph_inv_attach_fresh [of t node x t'] assms(3,4) by auto
  qed
  then show ?thesis by simp
qed

lemma graph_inv_make_var: "graph_inv g \<Longrightarrow> graph_inv (snd (make_var v g))"
  using graph_inv_new_node [of g] by (cases "make_var v g") (auto simp: make_var_def)

lemma graph_inv_make_signal:
  assumes "graph_inv g" and "\<forall>d\<in>set (leaves m_op). d < next_node g"
    and "make_signal m_op g = Inr (self, g')"
  shows "graph_inv g'"
proof -
  obtain n g1 where nn: "new_node (evaluate (value_ref g) m_op) (Signal_op_node m_op) g = (n, g1)"
    by (cases "new_node (evaluate (value_ref g) m_op) (Signal_op_node m_op) g")
  from graph_inv_new_node [OF assms(1) nn]
  have i: "graph_inv g1" and n: "n = next_node g" "next_node g1 = Suc n"
    and s: "successors (nodes g1 n) = []"
    by auto
  have a: "attach m_op n g1 = Inr g'"
    using assms(3) nn by (auto simp: make_signal_def bind_result_Inr)
  have "\<forall>d\<in>set (leaves m_op). d \<noteq> n" using assms(2) n by auto
  from graph_inv_attach [OF i s _ this a] n show ?thesis by simp
qed

lemma graph_inv_flatten:
  assumes "graph_inv g" and "outer < next_node g" and "existing_inner g outer"
    and "flatten outer g = Inr (self, g')"
  shows "graph_inv g'"
proof -
  from assms(4) obtain inner where v: "m_value (nodes g outer) = Sig (Some inner)"
    by (auto simp: flatten_def split: val.splits option.splits)
  have il: "inner < next_node g" using assms(3) v by (simp add: existing_inner_def)
  obtain n g1 where nn: "new_node (m_value (nodes g inner)) (Flatten_node outer inner) g = (n, g1)"
    by (cases "new_node (m_value (nodes g inner)) (Flatten_node outer inner) g")
  from graph_inv_new_node [OF assms(1) nn]
  have i: "graph_inv g1" and n: "n = next_node g" "next_node g1 = Suc n"
    and s: "successors (nodes g1 n) = []"
    by auto
  from assms(4) v nn obtain g2 where a: "on_node_attach n outer g1 = Inr g2"
    and b: "on_node_attach n inner g2 = Inr g'"
    by (auto simp: flatten_def bind_result_Inr)
  have "graph_inv g2 \<and> successors (nodes g2 n) = [] \<and> next_node g2 = next_node g1"
    using i s assms(2) n a by (intro graph_inv_attach_fresh) auto
  then have "graph_inv g' \<and> successors (nodes g' n) = [] \<and> next_node g' = next_node g2"
    using il n b by (intro graph_inv_attach_fresh) auto
  then show ?thesis by simp
qed

lemma graph_inv_observe:
  assumes "graph_inv g" and "subject < next_node g" and "observe subject func g = Inr (h, g')"
  shows "graph_inv g'"
proof -
  obtain n g1 where nn: "new_node (Sig None) (Signal_observer_node (Some subject) func) g = (n, g1)"
    by (cases "new_node (Sig None) (Signal_observer_node (Some subject) func) g")
  from graph_inv_new_node [OF assms(1) nn]
  have i: "graph_inv g1" and n: "n = next_node g" "next_node g1 = Suc n"
    and s: "successors (nodes g1 n) = []"
    by auto
  from assms(3) nn obtain g2 where a: "on_node_attach n subject g1 = Inr g2"
    and g': "g' = register_observer subject n g2"
    by (auto simp: observe_def bind_result_Inr)
  have "graph_inv g2 \<and> successors (nodes g2 n) = [] \<and> next_node g2 = next_node g1"
    using i s assms(2) n a by (intro graph_inv_attach_fresh) auto
  then show ?thesis by (simp add: g' register_observer_def graph_inv_upd_node)
qed

lemma graph_inv_run:
  "graph_inv g \<Longrightarrow> run_call fuel c g = Inr g' \<Longrightarrow> graph_inv g'"
  "graph_inv g \<Longrightarrow> run_calls fuel cs g = Inr g' \<Longrightarrow> graph_inv g'"
proof (induction fuel c g and fuel cs g arbitrary: g' and g' rule: run_call_run_calls.induct)
  case (1 fuel v g)
  then show ?case using graph_inv_make_var by auto
next
  case (2 fuel m_op g)
  then show ?case
    by (auto simp: bind_result_Inr list_all_iff split: if_splits prod.splits
        dest: graph_inv_make_signal)
next
  case (3 fuel outer g)
  then show ?case
    by (auto simp: bind_result_Inr split: if_splits prod.splits dest: graph_inv_flatten)
next
  case (4 fuel subject func g)
  then show ?case
    by (auto simp: bind_result_Inr split: if_splits prod.splits dest: graph_inv_observe)
next
  case (5 fuel r v g)
  then show ?case using graph_inv_add_input by auto
next
  case (6 fuel r func g)
  then show ?case using graph_inv_modify_input by auto
next
  case (7 fuel h g)
  then show ?case using graph_inv_detach by auto
next
  case (8 fuel body g)
  show ?case
  proof (rule graph_inv_do_transaction [OF "8.prems"(1)])
    show "do_transaction fuel (\<lambda>g1. run_calls fuel body g1) g = Inr g'"
      using "8.prems"(2) by simp
  next
    fix g1 g2 assume "graph_inv g1" "run_calls fuel body g1 = Inr g2"
    then show "graph_inv g2" by (rule "8.IH")
  qed
next
  case (9 fuel g)
  then show ?case by simp
next
  case (10 fuel c cs g)
  from "10.prems"(2) obtain g1 where a: "run_call fuel c g = Inr g1"
    and b: "run_calls fuel cs g1 = Inr g'"
    by (auto simp: bind_result_Inr)
  from "10.IH"(2) [OF "10.IH"(1) [OF "10.prems"(1) a] b] show ?case .
qed

lemma graph_inv_empty: "graph_inv empty_graph"
  by (simp add: graph_inv_def edges_ok_def queue_ok_def empty_graph_def blank_node_def)




subsection \<open>Transactions\<close>



subsection \<open>The queue\<close>

lemma minimal_level_fold:
  "fold (\<lambda>e minimal_level. if minimal_level > snd e then snd e else minimal_level) es (a::int) =
   (if es = [] then a else min a (Min (snd ` set es)))"
proof (induction es arbitrary: a)
  case Nil
  then show ?case by simp
next
  case (Cons e es)
  show ?case
  proof (cases "es = []")
    case True
    then show ?thesis by (simp add: min_def)
  next
    case False
    then show ?thesis using Cons.IH by (auto simp: min_def)
  qed
qed

lemma minimal_level_of_Min:
  assumes "es \<noteq> []" "\<forall>e\<in>set es. snd e \<le> INT_MAX"
  shows "minimal_level_of es = Min (snd ` set es)"
proof -
  have "Min (snd ` set es) \<in> snd ` set es"
    using assms(1) by (intro Min_in) auto
  then have "Min (snd ` set es) \<le> INT_MAX" using assms(2) by auto
  then have "min INT_MAX (Min (snd ` set es)) = Min (snd ` set es)" by (rule min_absorb2)
  then show ?thesis using assms(1) by (simp add: minimal_level_of_def minimal_level_fold)
qed

text \<open>
  C5: \<^verbatim>\<open>fetch_next\<close> returns false exactly when no entry is pending (and then leaves both
  vectors empty); otherwise the entries at the minimal pending level, all of them and no
  other, are moved to the current wave, every other entry stays pending, and it returns
  true. The vectors are compared as multisets, since the partition reorders them. The
  levels are those of a C++ \<^verbatim>\<open>int\<close>, hence at most \<open>INT_MAX\<close>.
\<close>

theorem fetch_next_spec:
  assumes "\<forall>e\<in>set (m_queue_data q). snd e \<le> INT_MAX"
    and "fetch_next q = (b, q')"
  shows "(b \<longleftrightarrow> m_queue_data q \<noteq> []) \<and>
         (m_queue_data q = [] \<longrightarrow> m_next_data q' = [] \<and> m_queue_data q' = []) \<and>
         (m_queue_data q \<noteq> [] \<longrightarrow>
            mset (m_next_data q') =
              image_mset fst (filter_mset (\<lambda>e. snd e = Min (snd ` set (m_queue_data q))) (mset (m_queue_data q))) \<and>
            mset (m_queue_data q') =
              filter_mset (\<lambda>e. snd e \<noteq> Min (snd ` set (m_queue_data q))) (mset (m_queue_data q)))"
proof (cases "m_queue_data q = []")
  case True
  then show ?thesis using assms(2)
    by (auto simp: fetch_next_def partition_vec_def Let_def)
next
  case False
  define m where "m = Min (snd ` set (m_queue_data q))"
  have mm: "minimal_level_of (m_queue_data q) = m"
    using minimal_level_of_Min [OF False assms(1)] by (simp add: m_def)
  obtain es p where pv: "partition_vec (\<lambda>e. snd e \<noteq> m) (m_queue_data q) = (es, p)"
    by (cases "partition_vec (\<lambda>e. snd e \<noteq> m) (m_queue_data q)")
  have b: "b = (map fst (drop p es) \<noteq> [])"
    and q': "q' = \<lparr>m_next_data = map fst (drop p es), m_queue_data = take p es\<rparr>"
    using assms(2) mm pv by (simp_all add: fetch_next_def Let_def)
  have d: "mset (drop p es) = filter_mset (\<lambda>e. snd e = m) (mset (m_queue_data q))"
    using partition_vec_mset(2) [OF pv] by simp
  have t: "mset (take p es) = filter_mset (\<lambda>e. snd e \<noteq> m) (mset (m_queue_data q))"
    using partition_vec_mset(1) [OF pv] by simp
  have "m \<in> snd ` set (m_queue_data q)"
    unfolding m_def using False by (intro Min_in) auto
  then obtain e where "e \<in> set (m_queue_data q)" "snd e = m" by auto
  then have "e \<in># filter_mset (\<lambda>e. snd e = m) (mset (m_queue_data q))" by simp
  then have "e \<in># mset (drop p es)" using d by simp
  then have "mset (drop p es) \<noteq> {#}" by fastforce
  then have ne: "drop p es \<noteq> []" by auto
  have n: "mset (m_next_data q') = image_mset fst (filter_mset (\<lambda>e. snd e = m) (mset (m_queue_data q)))"
    using arg_cong [OF d, of "image_mset fst"] q' by simp
  show ?thesis using False b ne n t q' by (simp add: m_def)
qed

theorem fetch_next_spec_witness:
  "list_all (\<lambda>e. snd e \<le> INT_MAX) [(1, 2), (2, 1), (3, 2), (4, 1::int)] \<and>
   fetch_next \<lparr>m_next_data = [9], m_queue_data = [(1, 2), (2, 1), (3, 2), (4, 1)]\<rparr> =
     (True, \<lparr>m_next_data = [2, 4], m_queue_data = [(1, 2), (3, 2)]\<rparr>) \<and>
   mset [2, 4::nat] = image_mset fst (filter_mset (\<lambda>e. snd e = (1::int)) (mset [(1, 2), (2, 1), (3, 2), (4, 1)]))"
proof -
  let ?q = "\<lparr>m_next_data = [9], m_queue_data = [(1, 2), (2, 1), (3, 2), (4, 1::int)]\<rparr>"
  have h: "\<forall>e\<in>set (m_queue_data ?q). snd e \<le> INT_MAX" by (simp add: INT_MAX_def)
  have f: "fetch_next ?q = (True, \<lparr>m_next_data = [2, 4], m_queue_data = [(1, 2), (3, 2)]\<rparr>)"
    by (simp add: fetch_next_def minimal_level_of_def INT_MAX_def partition_vec_def
        partition_loop.simps iter_swap_def Let_def)
  from fetch_next_spec [OF h f] h f show ?thesis by (simp add: INT_MAX_def)
qed

subsection \<open>The tick of a flatten node\<close>



subsection \<open>Detaching an observer through its handle\<close>




subsection \<open>Writes inside and outside a transaction\<close>

text \<open>
  A commit changes, in a node other than the committed one, at most the \<open>queued\<close> flag.
\<close>

lemma var_node_apply_input_other:
  assumes "var_node_apply_input p g = Inr (c, g')" "n \<noteq> p"
  shows "kind (nodes g' n) = kind (nodes g n) \<and> m_value (nodes g' n) = m_value (nodes g n) \<and>
         level (nodes g' n) = level (nodes g n) \<and> new_level (nodes g' n) = new_level (nodes g n) \<and>
         successors (nodes g' n) = successors (nodes g n) \<and>
         m_observers (nodes g' n) = m_observers (nodes g n)"
  using assms
  by (auto simp: var_node_apply_input_def Let_def on_input_change_def process_children_node
      split: node_kind.splits if_splits)

lemma var_node_apply_input_staged:
  assumes "var_node_apply_input p g = Inr (c, g')"
    and "case kind (nodes g r) of
           Var_node v \<Rightarrow> if m_is_input_added v then m_new_value v = x else m_value (nodes g r) = x
         | _ \<Rightarrow> False"
  shows "(case kind (nodes g' r) of
            Var_node v \<Rightarrow> if m_is_input_added v then m_new_value v = x else m_value (nodes g' r) = x
          | _ \<Rightarrow> False) \<and>
         (p = r \<or> (case kind (nodes g r) of Var_node v \<Rightarrow> \<not> m_is_input_added v | _ \<Rightarrow> False) \<longrightarrow>
            (case kind (nodes g' r) of Var_node v \<Rightarrow> \<not> m_is_input_added v | _ \<Rightarrow> False))"
proof (cases "p = r")
  case False
  then show ?thesis using var_node_apply_input_other [OF assms(1), of r] assms(2)
    by (auto split: node_kind.splits)
next
  case True
  then show ?thesis using assms
    by (auto simp: var_node_apply_input_def Let_def on_input_change_def process_children_node
        equals_def split: if_splits node_kind.splits)
qed

lemma apply_changed_inputs_staged:
  assumes "apply_changed_inputs ps b g = Inr (c, g')"
    and "case kind (nodes g r) of
           Var_node v \<Rightarrow> if m_is_input_added v then m_new_value v = x else m_value (nodes g r) = x
         | _ \<Rightarrow> False"
    and "r \<in> set ps \<or> (case kind (nodes g r) of Var_node v \<Rightarrow> \<not> m_is_input_added v | _ \<Rightarrow> False)"
  shows "m_value (nodes g' r) = x"
  using assms
proof (induction ps arbitrary: b g)
  case Nil
  then show ?case by (auto split: node_kind.splits if_splits)
next
  case (Cons p ps)
  from Cons.prems(1) obtain c1 g1 where
    a: "var_node_apply_input p g = Inr (c1, g1)"
    and rest: "apply_changed_inputs ps (if c1 then True else b) g1 = Inr (c, g')"
    by (cases "var_node_apply_input p g") auto
  note s = var_node_apply_input_staged [OF a Cons.prems(2)]
  have "r \<in> set ps \<or> (case kind (nodes g1 r) of Var_node v \<Rightarrow> \<not> m_is_input_added v | _ \<Rightarrow> False)"
    using Cons.prems(3) s by auto
  from Cons.IH [OF rest conjunct1 [OF s] this] show ?case .
qed



text \<open>
  C10: inside a transaction (the nesting level is positive), \<^verbatim>\<open>modify\<close> of a var node with
  no set pending changes the live value at once: the value read after the call is the
  function applied to the old value, while no node has been ticked and nothing has been
  scheduled. \<^verbatim>\<open>set\<close> inside a transaction leaves the live value as it was and queues the
  node as a changed input; the loop over the changed inputs at the exit of the
  outermost transaction then makes the staged value the live one.
\<close>

theorem modify_in_transaction_is_immediate:
  assumes "kind (nodes g r) = Var_node v" and "m_transaction_level g > 0"
  shows "(\<not> m_is_input_added v \<longrightarrow>
            (\<exists>g'. modify_input fuel r f g = Inr g' \<and>
               value_ref g' r = f (value_ref g r) \<and>
               tick_log g' = tick_log g \<and> m_scheduled_nodes g' = m_scheduled_nodes g \<and>
               (\<forall>n. n \<noteq> r \<longrightarrow> nodes g' n = nodes g n))) \<and>
         (\<exists>g'. add_input fuel r x g = Inr g' \<and>
            value_ref g' r = value_ref g r \<and>
            tick_log g' = tick_log g \<and> m_scheduled_nodes g' = m_scheduled_nodes g \<and>
            m_changed_inputs g' = m_changed_inputs g @ [r] \<and>
            (\<forall>b c g''. apply_changed_inputs (m_changed_inputs g') b g' = Inr (c, g'') \<longrightarrow>
               value_ref g'' r = x))"
proof -
  have m: "\<not> m_is_input_added v \<Longrightarrow>
            (\<exists>g'. modify_input fuel r f g = Inr g' \<and>
               value_ref g' r = f (value_ref g r) \<and>
               tick_log g' = tick_log g \<and> m_scheduled_nodes g' = m_scheduled_nodes g \<and>
               (\<forall>n. n \<noteq> r \<longrightarrow> nodes g' n = nodes g n))"
    using assms
    by (simp add: modify_input_def modify_transaction_input_def var_node_modify_input_def
        value_ref_def)
  let ?v = "\<lparr>m_new_value = x, m_is_input_added = True, m_is_input_modified = False\<rparr>"
  let ?g = "(upd_node r (\<lambda>n. n\<lparr>kind := Var_node ?v\<rparr>) g)\<lparr>m_changed_inputs := m_changed_inputs g @ [r]\<rparr>"
  have a: "add_input fuel r x g = Inr ?g"
    using assms
    by (simp add: add_input_def add_transaction_input_def var_node_add_input_def var_members_all)
  have "value_ref g'' r = x"
    if "apply_changed_inputs (m_changed_inputs ?g) b ?g = Inr (c, g'')" for b c g''
    using apply_changed_inputs_staged [OF that, where r = r and x = x] by (simp add: value_ref_def)
  then have "\<forall>b c g''. apply_changed_inputs (m_changed_inputs ?g) b ?g = Inr (c, g'') \<longrightarrow>
               value_ref g'' r = x"
    by blast
  then have "\<exists>g'. add_input fuel r x g = Inr g' \<and>
            value_ref g' r = value_ref g r \<and>
            tick_log g' = tick_log g \<and> m_scheduled_nodes g' = m_scheduled_nodes g \<and>
            m_changed_inputs g' = m_changed_inputs g @ [r] \<and>
            (\<forall>b c g''. apply_changed_inputs (m_changed_inputs g') b g' = Inr (c, g'') \<longrightarrow>
               value_ref g'' r = x)"
    using a by (simp add: value_ref_def)
  then show ?thesis using m by blast
qed

theorem modify_in_transaction_is_immediate_witness:
  "kind (nodes ((snd (make_var (Val (1::int)) empty_graph))\<lparr>m_transaction_level := 1\<rparr>) 0) =
     Var_node \<lparr>m_new_value = Val 1, m_is_input_added = False, m_is_input_modified = False\<rparr> \<and>
   m_transaction_level ((snd (make_var (Val (1::int)) empty_graph))\<lparr>m_transaction_level := 1\<rparr>) > 0 \<and>
   (case modify_input 0 0 (\<lambda>v. Val 5) ((snd (make_var (Val (1::int)) empty_graph))\<lparr>m_transaction_level := 1\<rparr>) of
      Inr g \<Rightarrow> value_ref g 0 = Val 5 \<and> tick_log g = []
    | Inl e \<Rightarrow> False) \<and>
   (case add_input 0 0 (Val 7) ((snd (make_var (Val (1::int)) empty_graph))\<lparr>m_transaction_level := 1\<rparr>) of
      Inr g \<Rightarrow> value_ref g 0 = Val 1 \<and> m_changed_inputs g = [0]
    | Inl e \<Rightarrow> False)"
proof -
  let ?g = "(snd (make_var (Val (1::int)) empty_graph))\<lparr>m_transaction_level := 1\<rparr>"
  let ?v = "\<lparr>m_new_value = Val (1::int), m_is_input_added = False, m_is_input_modified = False\<rparr>"
  have k: "kind (nodes ?g 0) = Var_node ?v"
    by (simp add: make_var_def new_node_def empty_graph_def)
  have l: "m_transaction_level ?g > 0" by simp
  have e: "value_ref ?g 0 = Val 1" "tick_log ?g = []" "m_changed_inputs ?g = []"
    by (simp_all add: make_var_def new_node_def empty_graph_def value_ref_def)
  from modify_in_transaction_is_immediate [OF k l, where f = "\<lambda>v. Val 5" and fuel = 0 and x = "Val 7"] k l e
  show ?thesis by auto
qed

end
